theory Spec2Isabelle
  imports Main
begin

section \<open>Characters, strings and numbers of the host language\<close>

text \<open>
  The backup codec lives in \<^verbatim>\<open>src/utils/sqlHelpers.ts\<close>. Its strings are sequences of
  code units, modelled as \<^typ>\<open>string\<close>. The three regular expressions of the source are
  translated into recursive functions that follow the backtracking order of the regular
  expression engine; each translation states the expression it stands for.
\<close>

abbreviation quote :: char where
  "quote \<equiv> CHR 0x27"

text \<open>The class \<^verbatim>\<open>\s\<close> restricted to the code units below 256.\<close>

definition isSpace :: "char \<Rightarrow> bool" where
  "isSpace c \<longleftrightarrow> c \<in> set [CHR 0x09, CHR 0x0A, CHR 0x0B, CHR 0x0C, CHR 0x0D, CHR 0x20, CHR 0xA0]"

text \<open>The class \<^verbatim>\<open>\d\<close>.\<close>

definition isDigit :: "char \<Rightarrow> bool" where
  "isDigit c \<longleftrightarrow> c \<in> set ''0123456789''"

text \<open>
  Case-insensitive matching (flag \<^verbatim>\<open>i\<close>) compares canonicalised characters. All
  letters in the patterns are ASCII, and a character outside ASCII never canonicalises
  to an ASCII letter, so upper-casing the ASCII letters decides every comparison.
\<close>

definition canonicalize :: "char \<Rightarrow> char" where
  "canonicalize c =
     (case map_of (zip ''abcdefghijklmnopqrstuvwxyz'' ''ABCDEFGHIJKLMNOPQRSTUVWXYZ'') c of
        None \<Rightarrow> c
      | Some u \<Rightarrow> u)"

text \<open>
  A literal of a case-insensitive pattern, matched at the start of the text; the result is
  the text after the match.
\<close>

fun matchLiteral :: "string \<Rightarrow> string \<Rightarrow> string option" where
  "matchLiteral [] s = Some s"
| "matchLiteral (p # ps) [] = None"
| "matchLiteral (p # ps) (c # cs) =
     (if canonicalize c = canonicalize p then matchLiteral ps cs else None)"

subsection \<open>Numbers\<close>

text \<open>
  A number is \<^verbatim>\<open>NaN\<close>, an infinity, or a finite decimal \<open>m * 10 ^ e\<close>. The canonical
  representation of a finite number has a mantissa that is not divisible by ten, and zero
  is \<open>Fin 0 0\<close>. A finite number stands for the 64-bit binary floating point number
  nearest to it. Reading a numeral rounds to zero below the range of these numbers and to
  infinity above it; inside the range the rounding to 53 binary digits is not modelled, so
  that two numerals with the same nearest floating point number are two numbers here, and
  the sign of zero is not modelled. Whether a number is zero, \<^verbatim>\<open>NaN\<close> or infinite is as in
  the language, and so is every numeral of at most fifteen significant digits inside the
  range, which covers the amounts and clock readings considered here.
\<close>

datatype number = NaN | PosInfinity | NegInfinity | Fin int int

definition digitChar :: "int \<Rightarrow> char" where
  "digitChar d = ''0123456789'' ! nat (d mod 10)"

definition digitVal :: "char \<Rightarrow> int" where
  "digitVal c = int (of_char c) - 48"

function digitsOf :: "int \<Rightarrow> string" where
  "digitsOf n = (if n < 10 then [digitChar n] else digitsOf (n div 10) @ [digitChar (n mod 10)])"
  by pat_completeness auto
termination
  by (relation "measure nat") auto

declare digitsOf.simps [simp del]

definition valueOfDigits :: "string \<Rightarrow> int" where
  "valueOfDigits ds = foldl (\<lambda>a c. 10 * a + digitVal c) 0 ds"

function stripZeros :: "int \<Rightarrow> int \<Rightarrow> int \<times> int" where
  "stripZeros m e = (if m \<noteq> 0 \<and> m mod 10 = 0 then stripZeros (m div 10) (e + 1) else (m, e))"
  by pat_completeness auto
termination
  by (relation "measure (\<lambda>(m, e). nat \<bar>m\<bar>)") auto

declare stripZeros.simps [simp del]

definition mkFin :: "int \<Rightarrow> int \<Rightarrow> number" where
  "mkFin m e = (if m = 0 then Fin 0 0 else case stripZeros m e of (m', e') \<Rightarrow> Fin m' e')"

definition ofInt :: "int \<Rightarrow> number" where
  "ofInt n = mkFin n 0"

text \<open>
  The range of the floating point numbers, for a decimal \<open>m * 10 ^ e\<close> with \<open>0 < m\<close>: at or
  below \<open>2 ^ - 1075\<close>, half the smallest positive number, it is rounded to zero, and at or
  above \<open>2 ^ 1024 - 2 ^ 970\<close>, half way from the largest finite number to \<open>2 ^ 1024\<close>, it is
  rounded to infinity. With \<open>k\<close> digits in \<open>m\<close> the decimal is at least \<open>10 ^ (k + e - 1)\<close>
  and below \<open>10 ^ (k + e)\<close>, so the bounds are compared only for \<open>k + e \<le> - 323\<close> and
  for \<open>308 < k + e\<close>.
\<close>

definition tooSmall :: "int \<Rightarrow> int \<Rightarrow> bool" where
  "tooSmall m e =
     (if - 323 < int (length (digitsOf m)) + e then False
      else m * 2 ^ 1075 \<le> 10 ^ nat (- e))"

definition tooLarge :: "int \<Rightarrow> int \<Rightarrow> bool" where
  "tooLarge m e =
     (if int (length (digitsOf m)) + e \<le> 308 then False
      else if 0 \<le> e then 2 ^ 1024 - 2 ^ 970 \<le> m * 10 ^ nat e
      else (2 ^ 1024 - 2 ^ 970) * 10 ^ nat (- e) \<le> m)"

definition fromDecimal :: "int \<Rightarrow> int \<Rightarrow> number" where
  "fromDecimal m e =
     (case mkFin m e of
        Fin m' e' \<Rightarrow>
          if tooSmall m' e' then Fin 0 0
          else if tooLarge m' e' then PosInfinity
          else Fin m' e'
      | x \<Rightarrow> x)"

definition negate :: "number \<Rightarrow> number" where
  "negate x =
     (case x of
        NaN \<Rightarrow> NaN
      | PosInfinity \<Rightarrow> NegInfinity
      | NegInfinity \<Rightarrow> PosInfinity
      | Fin m e \<Rightarrow> Fin (- m) e)"

definition canonical :: "number \<Rightarrow> bool" where
  "canonical x = (case x of Fin m e \<Rightarrow> (if m = 0 then e = 0 else m mod 10 \<noteq> 0) | _ \<Rightarrow> True)"

text \<open>
  \<^verbatim>\<open>Number::toString\<close> for radix ten: with \<open>k\<close> the number of digits of the mantissa \<open>s\<close>
  and \<open>n = k + e\<close>, positional notation is used for \<open>-6 < n \<le> 21\<close> and exponent notation
  otherwise.
\<close>

definition positiveToString :: "int \<Rightarrow> int \<Rightarrow> string" where
  "positiveToString s e =
     (let ds = digitsOf s; k = int (length ds); n = k + e in
      if k \<le> n \<and> n \<le> 21 then ds @ replicate (nat e) (CHR ''0'')
      else if 0 < n \<and> n \<le> 21 then take (nat n) ds @ ''.'' @ drop (nat n) ds
      else if - 6 < n \<and> n \<le> 0 then ''0.'' @ replicate (nat (- n)) (CHR ''0'') @ ds
      else (let ex = (if n - 1 < 0 then ''-'' else ''+'') @ digitsOf \<bar>n - 1\<bar> in
            if k = 1 then ds @ ''e'' @ ex
            else take 1 ds @ ''.'' @ drop 1 ds @ ''e'' @ ex))"

definition numberToString :: "number \<Rightarrow> string" where
  "numberToString x =
     (case x of
        NaN \<Rightarrow> ''NaN''
      | PosInfinity \<Rightarrow> ''Infinity''
      | NegInfinity \<Rightarrow> ''-Infinity''
      | Fin m e \<Rightarrow>
          (if m = 0 then ''0''
           else case stripZeros \<bar>m\<bar> e of
                  (s, e') \<Rightarrow> (if m < 0 then ''-'' else '''') @ positiveToString s e'))"

text \<open>
  \<^verbatim>\<open>StringToNumber\<close>: white space is trimmed, the empty string is zero, and the rest is a
  binary, octal or hexadecimal integer without sign, or a signed decimal literal with an
  optional fraction and an optional exponent, or \<^verbatim>\<open>Infinity\<close>; anything else is \<^verbatim>\<open>NaN\<close>.
\<close>

definition trimSpace :: "string \<Rightarrow> string" where
  "trimSpace s = rev (dropWhile isSpace (rev (dropWhile isSpace s)))"

definition radixDigit :: "int \<Rightarrow> char \<Rightarrow> int option" where
  "radixDigit b c =
     (case map_of (zip ''0123456789abcdef'' [0 .. 15]) c of
        Some d \<Rightarrow> if d < b then Some d else None
      | None \<Rightarrow>
          (case map_of (zip ''ABCDEF'' [10 .. 15]) c of
             Some d \<Rightarrow> if d < b then Some d else None
           | None \<Rightarrow> None))"

fun radixValue :: "int \<Rightarrow> int \<Rightarrow> string \<Rightarrow> int option" where
  "radixValue b a [] = Some a"
| "radixValue b a (c # cs) =
     (case radixDigit b c of None \<Rightarrow> None | Some d \<Rightarrow> radixValue b (b * a + d) cs)"

definition parseRadix :: "string \<Rightarrow> number option" where
  "parseRadix s =
     (case s of
        z # p # d # ds \<Rightarrow>
          (if z \<noteq> CHR ''0'' then None
           else if p = CHR ''x'' \<or> p = CHR ''X'' then map_option (\<lambda>n. fromDecimal n 0) (radixValue 16 0 (d # ds))
           else if p = CHR ''o'' \<or> p = CHR ''O'' then map_option (\<lambda>n. fromDecimal n 0) (radixValue 8 0 (d # ds))
           else if p = CHR ''b'' \<or> p = CHR ''B'' then map_option (\<lambda>n. fromDecimal n 0) (radixValue 2 0 (d # ds))
           else None)
      | _ \<Rightarrow> None)"

definition parseExponent :: "string \<Rightarrow> int option" where
  "parseExponent s =
     (case s of
        [] \<Rightarrow> Some 0
      | c # r \<Rightarrow>
          (if c = CHR ''e'' \<or> c = CHR ''E'' then
             (let neg = (r \<noteq> [] \<and> hd r = CHR ''-'');
                  ds = (if r \<noteq> [] \<and> (hd r = CHR ''-'' \<or> hd r = CHR ''+'') then tl r else r)
              in if ds \<noteq> [] \<and> list_all isDigit ds
                 then Some (if neg then - valueOfDigits ds else valueOfDigits ds)
                 else None)
           else None))"

definition parseDecimal :: "string \<Rightarrow> number" where
  "parseDecimal s =
     (if s = ''Infinity'' then PosInfinity
      else
        (let ip = takeWhile isDigit s;
             r1 = dropWhile isDigit s;
             dot = (r1 \<noteq> [] \<and> hd r1 = CHR ''.'');
             fp = (if dot then takeWhile isDigit (tl r1) else []);
             r2 = (if dot then dropWhile isDigit (tl r1) else r1)
         in if ip = [] \<and> fp = [] then NaN
            else case parseExponent r2 of
                   None \<Rightarrow> NaN
                 | Some x \<Rightarrow> fromDecimal (valueOfDigits (ip @ fp)) (x - int (length fp))))"

definition stringToNumber :: "string \<Rightarrow> number" where
  "stringToNumber s =
     (let t = trimSpace s in
      if t = [] then Fin 0 0
      else case parseRadix t of
             Some v \<Rightarrow> v
           | None \<Rightarrow>
               (case t of
                  c # r \<Rightarrow>
                    (if c = CHR ''-'' then negate (parseDecimal r)
                     else if c = CHR ''+'' then parseDecimal r
                     else parseDecimal t)
                | [] \<Rightarrow> Fin 0 0))"

subsection \<open>Dynamically typed values\<close>

text \<open>
  The element type \<^verbatim>\<open>string | number | null\<close> of the arrays returned by
  \<^verbatim>\<open>extractValues\<close>, with the coercions \<^verbatim>\<open>String(v)\<close>, \<^verbatim>\<open>Number(v)\<close> and the
  truthiness test behind \<^verbatim>\<open>v || d\<close>.
\<close>

datatype sqlValue = VStr string | VNull | VNum number

fun truthy :: "sqlValue \<Rightarrow> bool" where
  "truthy (VStr s) = (s \<noteq> [])"
| "truthy VNull = False"
| "truthy (VNum NaN) = False"
| "truthy (VNum (Fin m e)) = (m \<noteq> 0)"
| "truthy (VNum _) = True"

definition orElse :: "sqlValue \<Rightarrow> sqlValue \<Rightarrow> sqlValue" where
  "orElse v d = (if truthy v then v else d)"

fun String_of :: "sqlValue \<Rightarrow> string" where
  "String_of (VStr s) = s"
| "String_of VNull = ''null''"
| "String_of (VNum x) = numberToString x"

fun Number_of :: "sqlValue \<Rightarrow> number" where
  "Number_of (VStr s) = stringToNumber s"
| "Number_of VNull = Fin 0 0"
| "Number_of (VNum x) = x"

section \<open>Data model\<close>

text \<open>The interfaces \<^verbatim>\<open>Transaction\<close> and \<^verbatim>\<open>StatementData\<close> of \<^verbatim>\<open>src/types.ts\<close>; an
  optional field is an \<^typ>\<open>'a option\<close>.\<close>

datatype TransactionType = CREDIT | DEBIT

fun typeName :: "TransactionType \<Rightarrow> string" where
  "typeName CREDIT = ''CREDIT''"
| "typeName DEBIT = ''DEBIT''"

record Transaction =
  date :: string
  amount :: number
  description :: string
  transaction_code :: string
  partner_name :: string
  partner_account :: string
  type :: TransactionType
  category :: "string option"

record StatementData =
  id' :: "string option"
  fileName :: "string option"
  savedAt :: "number option"
  bankName :: "string option"
  accountHolder :: "string option"
  period :: "string option"
  transactions :: "Transaction list"

section \<open>Literal codec\<close>

text \<open>\<^verbatim>\<open>sqlEscape\<close>: an absent value is the null token, a string is quoted with every
  quote character doubled.\<close>

definition doubleQuotes :: "string \<Rightarrow> string" where
  "doubleQuotes s = concat (map (\<lambda>c. if c = quote then [quote, quote] else [c]) s)"

definition sqlEscape :: "string option \<Rightarrow> string" where
  "sqlEscape str = (case str of None \<Rightarrow> ''NULL'' | Some s \<Rightarrow> [quote] @ doubleQuotes s @ [quote])"

text \<open>\<^verbatim>\<open>replace(/''/g, "'")\<close>: every pair of quote characters, from the left, becomes one.\<close>

fun unescape :: "string \<Rightarrow> string" where
  "unescape (a # b # cs) = (if a = quote \<and> b = quote then quote # unescape cs else a # unescape (b # cs))"
| "unescape cs = cs"

text \<open>
  The first alternative \<^verbatim>\<open>'((?:[^']|'')*)'\<close> of the value pattern, after its opening quote.
  The result is the captured group and the text after the closing quote. The star is
  greedy: a doubled quote is taken as part of the run first, and only when the rest then
  finds no closing quote does the engine go back and close the run at the first quote of
  the pair.
\<close>

fun quotedRun :: "string \<Rightarrow> (string \<times> string) option" where
  "quotedRun [] = None"
| "quotedRun (c # cs) =
     (if c \<noteq> quote then map_option (\<lambda>(g, r). (c # g, r)) (quotedRun cs)
      else case cs of
             [] \<Rightarrow> Some ([], cs)
           | c' # cs' \<Rightarrow>
               if c' = quote then
                 (case quotedRun cs' of
                    Some (g, r) \<Rightarrow> Some (quote # quote # g, r)
                  | None \<Rightarrow> Some ([], cs))
               else Some ([], cs))"

text \<open>The third alternative \<^verbatim>\<open>([-\d]+(?:\.\d+)?)\<close>: the token and the text after it.\<close>

definition isNumberChar :: "char \<Rightarrow> bool" where
  "isNumberChar c \<longleftrightarrow> c = CHR ''-'' \<or> isDigit c"

definition matchNumber :: "string \<Rightarrow> (string \<times> string) option" where
  "matchNumber s =
     (let run = takeWhile isNumberChar s; r = dropWhile isNumberChar s in
      if run = [] then None
      else case r of
             [] \<Rightarrow> Some (run, r)
           | d # r' \<Rightarrow>
               if d = CHR ''.'' \<and> takeWhile isDigit r' \<noteq> []
               then Some (run @ ''.'' @ takeWhile isDigit r', dropWhile isDigit r')
               else Some (run, r))"

text \<open>
  \<^verbatim>\<open>extractValues\<close>: the loop over \<^verbatim>\<open>sqlValueRegex.exec\<close>. At each position the three
  alternatives are tried in order; a match appends one value and the search goes on after
  it, and a position where nothing matches is skipped.
\<close>

function extractValues :: "string \<Rightarrow> sqlValue list" where
  "extractValues [] = []"
| "extractValues (c # cs) =
     (case (if c = quote then quotedRun cs else None) of
        Some (g, r) \<Rightarrow> VStr (unescape g) # extractValues r
      | None \<Rightarrow>
          (case matchLiteral ''NULL'' (c # cs) of
             Some r \<Rightarrow> VNull # extractValues r
           | None \<Rightarrow>
               (case matchNumber (c # cs) of
                  Some (tok, r) \<Rightarrow> VNum (stringToNumber tok) # extractValues r
                | None \<Rightarrow> extractValues cs)))"
  by pat_completeness auto

lemma quotedRun_decompose: "quotedRun s = Some (g, r) \<Longrightarrow> s = g @ quote # r"
proof (induction s arbitrary: g r rule: quotedRun.induct)
  case 1
  then show ?case by simp
next
  case (2 c cs)
  show ?case
  proof (cases "c = quote")
    case False
    with "2.prems" obtain g' where "quotedRun cs = Some (g', r)" and "g = c # g'"
      by (auto split: option.splits)
    with "2.IH"(1) [OF False] show ?thesis by simp
  next
    case True
    note q = this
    show ?thesis
    proof (cases cs)
      case Nil
      with "2.prems" q show ?thesis by simp
    next
      case (Cons c' cs')
      show ?thesis
      proof (cases "c' = quote")
        case False
        with "2.prems" q Cons show ?thesis by simp
      next
        case True
        show ?thesis
        proof (cases "quotedRun cs'")
          case None
          with "2.prems" q Cons True show ?thesis by simp
        next
          case (Some p)
          obtain g' r' where p: "p = (g', r')" by (cases p)
          from "2.IH"(2) q Cons True Some p have "cs' = g' @ quote # r'" by simp
          with "2.prems" q Cons True Some p show ?thesis by simp
        qed
      qed
    qed
  qed
qed

lemma matchLiteral_length: "matchLiteral p s = Some r \<Longrightarrow> length r + length p = length s"
  by (induction p s rule: matchLiteral.induct) (auto split: if_splits)

lemma matchNumber_decompose: "matchNumber s = Some (t, r) \<Longrightarrow> s = t @ r \<and> t \<noteq> []"
  unfolding matchNumber_def Let_def
  apply (auto split: if_splits list.splits)
  apply (metis takeWhile_dropWhile_id)
  done

termination extractValues
proof (relation "measure length")
  show "wf (measure length)" by simp
next
  fix c cs x2 g r
  assume "(if c = quote then quotedRun cs else None) = Some x2" and "(g, r) = x2"
  then have "quotedRun cs = Some (g, r)" by (auto split: if_splits)
  then show "(r, c # cs) \<in> measure length" by (auto dest: quotedRun_decompose)
next
  fix c cs r
  assume "matchLiteral ''NULL'' (c # cs) = Some r"
  from matchLiteral_length [OF this] show "(r, c # cs) \<in> measure length" by simp
next
  fix c cs x2 tok r
  assume "matchNumber (c # cs) = Some x2" and "(tok, r) = x2"
  then have "matchNumber (c # cs) = Some (tok, r)" by simp
  then have "c # cs = tok @ r \<and> tok \<noteq> []" by (rule matchNumber_decompose)
  then have "length (c # cs) = length tok + length r" and "length tok > 0"
    by (metis length_append, simp)
  then show "(r, c # cs) \<in> measure length" by simp
next
  fix c cs
  show "(cs, c # cs) \<in> measure length" by simp
qed

declare extractValues.simps [simp del]

text \<open>
  The matcher of the host works by backtracking. In the first alternative of the value
  pattern every round of the group \<^verbatim>\<open>(?:[^']|'')*\<close> leaves an entry on its stack, to come
  back to when the rest of the pattern fails, and when the stack is full the matcher
  throws a \<^verbatim>\<open>RangeError\<close>. The size of the stack, counted in rounds, is a parameter
  \<open>limit\<close> of the decoder, as the clock readings are. The other patterns of the source
  repeat a single character class, which a backtracking matcher does without an entry for
  each round, so only this group is charged.

  \<open>groupRuns\<close> is the number of rounds that the greedy group takes from the start of a
  text, and \<open>stackExceeded\<close> tells whether some attempt of the first alternative during
  the loop of \<^verbatim>\<open>extractValues\<close> takes more rounds than the stack holds. The attempts are
  made at the positions that the loop visits, whether they end in a match or not.
\<close>

fun groupRuns :: "string \<Rightarrow> int" where
  "groupRuns [] = 0"
| "groupRuns (c # cs) =
     (if c \<noteq> quote then 1 + groupRuns cs
      else case cs of
             [] \<Rightarrow> 0
           | c' # cs' \<Rightarrow> if c' = quote then 1 + groupRuns cs' else 0)"

function stackExceeded :: "int \<Rightarrow> string \<Rightarrow> bool" where
  "stackExceeded limit [] = False"
| "stackExceeded limit (c # cs) =
     (if c = quote \<and> limit < groupRuns cs then True
      else case (if c = quote then quotedRun cs else None) of
             Some (g, r) \<Rightarrow> stackExceeded limit r
           | None \<Rightarrow>
               (case matchLiteral ''NULL'' (c # cs) of
                  Some r \<Rightarrow> stackExceeded limit r
                | None \<Rightarrow>
                    (case matchNumber (c # cs) of
                       Some (tok, r) \<Rightarrow> stackExceeded limit r
                     | None \<Rightarrow> stackExceeded limit cs)))"
  by pat_completeness auto

termination stackExceeded
proof (relation "measure (\<lambda>(limit, s). length s)")
  show "wf (measure (\<lambda>(limit, s). length s))" by simp
next
  fix limit :: int and c cs x2 g r
  assume "(if c = quote then quotedRun cs else None) = Some x2" and "(g, r) = x2"
  then have "quotedRun cs = Some (g, r)" by (auto split: if_splits)
  then show "((limit, r), limit, c # cs) \<in> measure (\<lambda>(limit, s). length s)"
    by (auto dest: quotedRun_decompose)
next
  fix limit :: int and c cs r
  assume "matchLiteral ''NULL'' (c # cs) = Some r"
  from matchLiteral_length [OF this]
  show "((limit, r), limit, c # cs) \<in> measure (\<lambda>(limit, s). length s)" by simp
next
  fix limit :: int and c cs x2 tok r
  assume "matchNumber (c # cs) = Some x2" and "(tok, r) = x2"
  then have "matchNumber (c # cs) = Some (tok, r)" by simp
  then have "c # cs = tok @ r \<and> tok \<noteq> []" by (rule matchNumber_decompose)
  then have "length (c # cs) = length tok + length r" and "length tok > 0"
    by (metis length_append, simp)
  then show "((limit, r), limit, c # cs) \<in> measure (\<lambda>(limit, s). length s)" by simp
next
  fix limit :: int and c cs
  show "((limit, cs), limit, c # cs) \<in> measure (\<lambda>(limit, s). length s)" by simp
qed

declare stackExceeded.simps [simp del]

section \<open>Encoder\<close>

text \<open>
  \<^verbatim>\<open>generateSQL\<close>. The clock is read three times: \<^verbatim>\<open>new Date().toISOString()\<close> gives the
  text \<open>timestamp\<close>, \<^verbatim>\<open>Date.now()\<close> gives \<open>idNow\<close> where the record has no usable id, and
  \<^verbatim>\<open>Date.now()\<close> gives \<open>savedNow\<close> in the metadata tuple.
\<close>

definition stmtId :: "int \<Rightarrow> StatementData \<Rightarrow> string" where
  "stmtId idNow data =
     (case id' data of
        None \<Rightarrow> numberToString (ofInt idNow)
      | Some s \<Rightarrow> if s = [] then numberToString (ofInt idNow) else s)"

definition bankLabel :: "StatementData \<Rightarrow> string" where
  "bankLabel data =
     (case bankName data of None \<Rightarrow> ''Unknown'' | Some b \<Rightarrow> if b = [] then ''Unknown'' else b)"

definition headerComment :: "string \<Rightarrow> StatementData \<Rightarrow> string" where
  "headerComment timestamp data =
     ''-- Smart Bank Statement Backup\<newline>'' @
     ''-- Created at: '' @ timestamp @ ''\<newline>'' @
     ''-- Bank: '' @ bankLabel data @ ''\<newline>\<newline>''"

definition createTables :: string where
  "createTables =
     ''CREATE TABLE IF NOT EXISTS statements (\<newline>'' @
     ''    id TEXT PRIMARY KEY,\<newline>'' @
     ''    file_name TEXT,\<newline>'' @
     ''    bank_name TEXT,\<newline>'' @
     ''    account_holder TEXT,\<newline>'' @
     ''    period TEXT,\<newline>'' @
     ''    saved_at INTEGER\<newline>'' @
     '');\<newline>\<newline>'' @
     ''CREATE TABLE IF NOT EXISTS transactions (\<newline>'' @
     ''    id INTEGER PRIMARY KEY AUTOINCREMENT,\<newline>'' @
     ''    statement_id TEXT,\<newline>'' @
     ''    date TEXT,\<newline>'' @
     ''    amount REAL,\<newline>'' @
     ''    description TEXT,\<newline>'' @
     ''    transaction_code TEXT,\<newline>'' @
     ''    partner_name TEXT,\<newline>'' @
     ''    partner_account TEXT,\<newline>'' @
     ''    type TEXT,\<newline>'' @
     ''    category TEXT,\<newline>'' @
     ''    FOREIGN KEY(statement_id) REFERENCES statements(id)\<newline>'' @
     '');\<newline>\<newline>''"

definition statementValues :: "int \<Rightarrow> int \<Rightarrow> StatementData \<Rightarrow> string" where
  "statementValues idNow savedNow data =
     ''\<newline>    '' @ sqlEscape (Some (stmtId idNow data)) @ '',\<newline>'' @
     ''    '' @ sqlEscape (fileName data) @ '',\<newline>'' @
     ''    '' @ sqlEscape (bankName data) @ '',\<newline>'' @
     ''    '' @ sqlEscape (accountHolder data) @ '',\<newline>'' @
     ''    '' @ sqlEscape (period data) @ '',\<newline>'' @
     ''    '' @ numberToString (ofInt savedNow) @ ''\<newline>''"

definition insertStatement :: "int \<Rightarrow> int \<Rightarrow> StatementData \<Rightarrow> string" where
  "insertStatement idNow savedNow data =
     ''INSERT INTO statements (id, file_name, bank_name, account_holder, period, saved_at) VALUES ('' @
     statementValues idNow savedNow data @ '');\<newline>\<newline>''"

definition rowValues :: "string \<Rightarrow> Transaction \<Rightarrow> string" where
  "rowValues sid tx =
     sqlEscape (Some sid) @ '', '' @ sqlEscape (Some (date tx)) @ '', '' @
     numberToString (amount tx) @ '', '' @ sqlEscape (Some (description tx)) @ '', '' @
     sqlEscape (Some (transaction_code tx)) @ '', '' @ sqlEscape (Some (partner_name tx)) @ '', '' @
     sqlEscape (Some (partner_account tx)) @ '', '' @ sqlEscape (Some (typeName (type tx))) @ '', '' @
     sqlEscape (category tx)"

definition transactionRow :: "string \<Rightarrow> Transaction \<Rightarrow> string" where
  "transactionRow sid tx = ''('' @ rowValues sid tx @ '')''"

fun join :: "string \<Rightarrow> string list \<Rightarrow> string" where
  "join sep [] = []"
| "join sep [x] = x"
| "join sep (x # y # ys) = x @ sep @ join sep (y # ys)"

definition insertTransactions :: "int \<Rightarrow> StatementData \<Rightarrow> string" where
  "insertTransactions idNow data =
     (if length (transactions data) > 0 then
        ''INSERT INTO transactions (statement_id, date, amount, description, transaction_code, partner_name, partner_account, type, category) VALUES\<newline>'' @
        join '',\<newline>'' (map (transactionRow (stmtId idNow data)) (transactions data)) @ '';\<newline>''
      else [])"

definition generateSQL :: "string \<Rightarrow> int \<Rightarrow> int \<Rightarrow> StatementData \<Rightarrow> string" where
  "generateSQL timestamp idNow savedNow data =
     headerComment timestamp data @ createTables @
     insertStatement idNow savedNow data @ insertTransactions idNow data"

section \<open>Decoder\<close>

text \<open>The column list \<^verbatim>\<open>\([^)]+\)\<close> at the start of the text; the result is the text after it.\<close>

definition columnList :: "string \<Rightarrow> string option" where
  "columnList s =
     (case s of
        [] \<Rightarrow> None
      | c # r \<Rightarrow>
          (if c = CHR ''('' \<and> takeWhile (\<lambda>x. x \<noteq> CHR '')'') r \<noteq> [] \<and> dropWhile (\<lambda>x. x \<noteq> CHR '')'') r \<noteq> []
           then Some (tl (dropWhile (\<lambda>x. x \<noteq> CHR '')'') r))
           else None))"

text \<open>The lazy group \<^verbatim>\<open>([\s\S]+?)\<close> followed by \<^verbatim>\<open>\);\<close>: the shortest non-empty text
  before a closing parenthesis and semicolon.\<close>

fun untilClose :: "string \<Rightarrow> string option" where
  "untilClose [] = None"
| "untilClose (c # cs) =
     (if c = CHR '')'' \<and> cs \<noteq> [] \<and> hd cs = CHR '';'' then Some []
      else map_option ((#) c) (untilClose cs))"

definition captureValues :: "string \<Rightarrow> string option" where
  "captureValues s = (case s of [] \<Rightarrow> None | c # cs \<Rightarrow> map_option ((#) c) (untilClose cs))"

text \<open>
  The metadata pattern
  \<^verbatim>\<open>/INSERT INTO statements\s*\([^)]+\)\s*VALUES\s*\(([\s\S]+?)\);/i\<close> at the start of the
  text, and \<^verbatim>\<open>sqlContent.match\<close>, which returns the group of the leftmost match. Each
  greedy quantifier is followed by a character outside its class, so giving characters
  back never helps and the match at one position is decided in one pass.
\<close>

definition matchStatements :: "string \<Rightarrow> string option" where
  "matchStatements s =
     (case matchLiteral ''INSERT INTO statements'' s of
        None \<Rightarrow> None
      | Some r1 \<Rightarrow>
          (case columnList (dropWhile isSpace r1) of
             None \<Rightarrow> None
           | Some r2 \<Rightarrow>
               (case matchLiteral ''VALUES'' (dropWhile isSpace r2) of
                  None \<Rightarrow> None
                | Some r3 \<Rightarrow>
                    (case dropWhile isSpace r3 of
                       [] \<Rightarrow> None
                     | c # r4 \<Rightarrow> if c = CHR ''('' then captureValues r4 else None))))"

fun stmtMatch :: "string \<Rightarrow> string option" where
  "stmtMatch [] = None"
| "stmtMatch (c # cs) =
     (case matchStatements (c # cs) of Some v \<Rightarrow> Some v | None \<Rightarrow> stmtMatch cs)"

text \<open>
  The marker pattern \<^verbatim>\<open>/INSERT INTO transactions\s*(?:\([^)]+\))?\s*VALUES/gi\<close> at the
  start of the text, and one call of \<^verbatim>\<open>insertRegex.exec\<close>: the text after the leftmost
  match. The optional column list is tried first; without it the keyword must follow the
  white space directly.
\<close>

definition matchInsert :: "string \<Rightarrow> string option" where
  "matchInsert s =
     (case matchLiteral ''INSERT INTO transactions'' s of
        None \<Rightarrow> None
      | Some r1 \<Rightarrow>
          (case columnList (dropWhile isSpace r1) of
             None \<Rightarrow> matchLiteral ''VALUES'' (dropWhile isSpace r1)
           | Some r2 \<Rightarrow>
               (case matchLiteral ''VALUES'' (dropWhile isSpace r2) of
                  None \<Rightarrow> matchLiteral ''VALUES'' (dropWhile isSpace r1)
                | Some r3 \<Rightarrow> Some r3)))"

fun insertRegexExec :: "string \<Rightarrow> string option" where
  "insertRegexExec [] = None"
| "insertRegexExec (c # cs) =
     (case matchInsert (c # cs) of Some r \<Rightarrow> Some r | None \<Rightarrow> insertRegexExec cs)"

text \<open>
  The object pushed for a completed tuple, with the defaults of the source, and the guard
  around the push: nothing is pushed for fewer than nine values.
\<close>

definition rowOf :: "sqlValue list \<Rightarrow> Transaction" where
  "rowOf cols =
     \<lparr> date = String_of (orElse (cols ! 1) (VStr [])),
       amount = Number_of (orElse (cols ! 2) (VNum (Fin 0 0))),
       description = String_of (orElse (cols ! 3) (VStr [])),
       transaction_code = String_of (orElse (cols ! 4) (VStr [])),
       partner_name = String_of (orElse (cols ! 5) (VStr [])),
       partner_account = String_of (orElse (cols ! 6) (VStr [])),
       type = (if String_of (cols ! 7) = ''CREDIT'' then CREDIT else DEBIT),
       category = Some (String_of (orElse (cols ! 8) (VStr []))) \<rparr>"

definition toTransaction :: "sqlValue list \<Rightarrow> Transaction list" where
  "toTransaction cols = (if length cols \<ge> 9 then [rowOf cols] else [])"

text \<open>
  The inner loop of \<^verbatim>\<open>parseSQL\<close>, from the character after a marker: \<open>inString\<close> and
  \<open>parenDepth\<close> are the variables of the source, and \<open>tuple\<close> holds the text from
  \<^verbatim>\<open>tupleStart + 1\<close> to the current index (\<open>None\<close> for \<^verbatim>\<open>tupleStart = -1\<close>). The result is
  the list of rows pushed, in order.
\<close>

definition extend :: "string option \<Rightarrow> string \<Rightarrow> string option" where
  "extend tuple cs = map_option (\<lambda>t. t @ cs) tuple"

fun scanBlock :: "string \<Rightarrow> bool \<Rightarrow> int \<Rightarrow> string option \<Rightarrow> Transaction list" where
  "scanBlock [] inString parenDepth tuple = []"
| "scanBlock (c # cs) inString parenDepth tuple =
     (if inString then
        (if c = quote then
           (case cs of
              [] \<Rightarrow> scanBlock cs False parenDepth (extend tuple [c])
            | c' # cs' \<Rightarrow>
                if c' = quote then scanBlock cs' True parenDepth (extend tuple [c, c'])
                else scanBlock cs False parenDepth (extend tuple [c]))
         else scanBlock cs True parenDepth (extend tuple [c]))
      else if c = quote then scanBlock cs True parenDepth (extend tuple [c])
      else if c = CHR ''('' then
        scanBlock cs False (parenDepth + 1) (if parenDepth = 0 then Some [] else extend tuple [c])
      else if c = CHR '')'' then
        (if parenDepth - 1 = 0 \<and> tuple \<noteq> None
         then toTransaction (extractValues (the tuple)) @ scanBlock cs False 0 None
         else scanBlock cs False (parenDepth - 1) (extend tuple [c]))
      else if c = CHR '';'' \<and> parenDepth = 0 then []
      else scanBlock cs False parenDepth (extend tuple [c]))"

text \<open>The outer loop: one scan per marker, the search for the next marker resuming right
  after the previous marker.\<close>

function scanAll :: "string \<Rightarrow> Transaction list" where
  "scanAll s =
     (case insertRegexExec s of
        None \<Rightarrow> []
      | Some r \<Rightarrow> scanBlock r False 0 None @ scanAll r)"
  by pat_completeness auto

lemma columnList_length: "columnList s = Some r \<Longrightarrow> length r < length s"
proof -
  assume a: "columnList s = Some r"
  then obtain c t where s: "s = c # t" and r: "r = tl (dropWhile (\<lambda>x. x \<noteq> CHR '')'') t)"
    by (auto simp: columnList_def split: list.splits if_splits)
  have "length (dropWhile (\<lambda>x. x \<noteq> CHR '')'') t) \<le> length t"
    by (rule length_dropWhile_le)
  with s r show ?thesis by simp
qed

lemma matchInsert_length:
  assumes "matchInsert s = Some r"
  shows "length r < length s"
proof -
  from assms obtain r1 where r1: "matchLiteral ''INSERT INTO transactions'' s = Some r1"
    by (auto simp: matchInsert_def split: option.splits)
  from matchLiteral_length [OF r1] have l1: "length r1 < length s" by simp
  have sp: "\<And>t. length (dropWhile isSpace t) \<le> length t" by (rule length_dropWhile_le)
  from assms r1 consider
      (direct) "matchLiteral ''VALUES'' (dropWhile isSpace r1) = Some r"
    | (cols) r2 where "columnList (dropWhile isSpace r1) = Some r2"
        and "matchLiteral ''VALUES'' (dropWhile isSpace r2) = Some r"
    by (auto simp: matchInsert_def split: option.splits)
  then show ?thesis
  proof cases
    case direct
    from matchLiteral_length [OF direct] sp [of r1] l1 show ?thesis by simp
  next
    case cols
    from matchLiteral_length [OF cols(2)] sp [of r2] columnList_length [OF cols(1)] sp [of r1] l1
    show ?thesis by simp
  qed
qed

lemma insertRegexExec_length: "insertRegexExec s = Some r \<Longrightarrow> length r < length s"
  by (induction s) (auto split: option.splits dest: matchInsert_length)

termination scanAll
  by (relation "measure length") (auto dest: insertRegexExec_length)

declare scanAll.simps [simp del]

text \<open>
  The texts that the scan of one block hands to \<^verbatim>\<open>extractValues\<close>: the loop of
  \<open>scanBlock\<close> with the tuple text recorded in place of the push. \<open>completedTuples\<close> collects
  them over all markers, as \<open>scanAll\<close> does for the rows.
\<close>

fun blockTuples :: "string \<Rightarrow> bool \<Rightarrow> int \<Rightarrow> string option \<Rightarrow> string list" where
  "blockTuples [] inString parenDepth tuple = []"
| "blockTuples (c # cs) inString parenDepth tuple =
     (if inString then
        (if c = quote then
           (case cs of
              [] \<Rightarrow> blockTuples cs False parenDepth (extend tuple [c])
            | c' # cs' \<Rightarrow>
                if c' = quote then blockTuples cs' True parenDepth (extend tuple [c, c'])
                else blockTuples cs False parenDepth (extend tuple [c]))
         else blockTuples cs True parenDepth (extend tuple [c]))
      else if c = quote then blockTuples cs True parenDepth (extend tuple [c])
      else if c = CHR ''('' then
        blockTuples cs False (parenDepth + 1) (if parenDepth = 0 then Some [] else extend tuple [c])
      else if c = CHR '')'' then
        (if parenDepth - 1 = 0 \<and> tuple \<noteq> None
         then the tuple # blockTuples cs False 0 None
         else blockTuples cs False (parenDepth - 1) (extend tuple [c]))
      else if c = CHR '';'' \<and> parenDepth = 0 then []
      else blockTuples cs False parenDepth (extend tuple [c]))"

function completedTuples :: "string \<Rightarrow> string list" where
  "completedTuples s =
     (case insertRegexExec s of
        None \<Rightarrow> []
      | Some r \<Rightarrow> blockTuples r False 0 None @ completedTuples r)"
  by pat_completeness auto
termination
  by (relation "measure length") (auto dest: insertRegexExec_length)

declare completedTuples.simps [simp del]

text \<open>
  \<^verbatim>\<open>parseSQL\<close>. The body of the \<^verbatim>\<open>try\<close> block throws where the metadata statement is
  not found and where it has fewer than six values, and the matcher throws inside
  \<^verbatim>\<open>extractValues\<close> where its stack is exceeded, on the metadata tuple or on a completed
  tuple; what a throw leaves of the rows pushed so far is lost, so the scan throws exactly
  when the stack is exceeded on one of the texts that it hands to \<^verbatim>\<open>extractValues\<close>. The
  \<^verbatim>\<open>catch\<close> clause replaces whatever was thrown by one error. \<open>now\<close> is the reading of
  \<^verbatim>\<open>Date.now()\<close> used where the sixth metadata value is falsy.
\<close>

datatype failure = StatementsNotFound | StatementsIncomplete | EngineRangeError

datatype parseError = CorruptOrWrongFormat

definition parseSQL_try :: "int \<Rightarrow> int \<Rightarrow> string \<Rightarrow> failure + StatementData" where
  "parseSQL_try limit now sqlContent =
     (case stmtMatch sqlContent of
        None \<Rightarrow> Inl StatementsNotFound
      | Some stmtValuesStr \<Rightarrow>
          if stackExceeded limit stmtValuesStr then Inl EngineRangeError
          else
            (let stmtData = extractValues stmtValuesStr in
             if length stmtData < 6 then Inl StatementsIncomplete
             else if list_ex (stackExceeded limit) (completedTuples sqlContent)
             then Inl EngineRangeError
             else Inr \<lparr> id' = Some (String_of (orElse (stmtData ! 0) (VStr []))),
                        fileName = Some (String_of (orElse (stmtData ! 1) (VStr ''Recovered_Statement''))),
                        savedAt = Some (Number_of (orElse (stmtData ! 5) (VNum (ofInt now)))),
                        bankName = Some (String_of (orElse (stmtData ! 2) (VStr []))),
                        accountHolder = Some (String_of (orElse (stmtData ! 3) (VStr []))),
                        period = Some (String_of (orElse (stmtData ! 4) (VStr []))),
                        transactions = scanAll sqlContent \<rparr>))"

definition parseSQL :: "int \<Rightarrow> int \<Rightarrow> string \<Rightarrow> parseError + StatementData" where
  "parseSQL limit now sqlContent =
     (case parseSQL_try limit now sqlContent of
        Inl e \<Rightarrow> Inl CorruptOrWrongFormat
      | Inr data \<Rightarrow> Inr data)"

section \<open>Conditions on texts and numbers\<close>

text \<open>The text holds the keyword somewhere, in any letter case.\<close>

fun containsCI :: "string \<Rightarrow> string \<Rightarrow> bool" where
  "containsCI k [] = (matchLiteral k [] \<noteq> None)"
| "containsCI k (c # cs) = (matchLiteral k (c # cs) \<noteq> None \<or> containsCI k cs)"

text \<open>The text holds a closing parenthesis directly followed by a semicolon.\<close>

fun hasClose :: "string \<Rightarrow> bool" where
  "hasClose (a # b # cs) = ((a = CHR '')'' \<and> b = CHR '';'') \<or> hasClose (b # cs))"
| "hasClose cs = False"

text \<open>
  The finite numbers that \<^verbatim>\<open>Number::toString\<close> writes in positional notation, in their
  canonical representation.
\<close>

definition positional :: "number \<Rightarrow> bool" where
  "positional x =
     (case x of
        Fin m e \<Rightarrow>
          (if m = 0 then e = 0
           else m mod 10 \<noteq> 0 \<and> - 6 < int (length (digitsOf \<bar>m\<bar>)) + e \<and>
                int (length (digitsOf \<bar>m\<bar>)) + e \<le> 21)
      | _ \<Rightarrow> False)"

text \<open>The text fields of a record, as far as they are present.\<close>

definition present :: "string option \<Rightarrow> string list" where
  "present x = (case x of None \<Rightarrow> [] | Some s \<Rightarrow> [s])"

definition metadataTexts :: "StatementData \<Rightarrow> string list" where
  "metadataTexts data =
     present (id' data) @ present (fileName data) @ present (bankName data) @
     present (accountHolder data) @ present (period data)"

definition transactionTexts :: "Transaction \<Rightarrow> string list" where
  "transactionTexts tx =
     [date tx, description tx, transaction_code tx, partner_name tx, partner_account tx] @
     present (category tx)"

definition recordTexts :: "StatementData \<Rightarrow> string list" where
  "recordTexts data = metadataTexts data @ concat (map transactionTexts (transactions data))"

text \<open>The characters of the text that \<^verbatim>\<open>toISOString\<close> returns.\<close>

definition isoTimestamp :: "string \<Rightarrow> bool" where
  "isoTimestamp ts \<longleftrightarrow> list_all (\<lambda>c. c \<in> set ''0123456789-+:.TZ'') ts"

text \<open>A text without quotes, parentheses and semicolons.\<close>

definition plainText :: "string \<Rightarrow> bool" where
  "plainText p \<longleftrightarrow>
     (\<forall>c \<in> set p. c \<noteq> quote \<and> c \<noteq> CHR ''('' \<and> c \<noteq> CHR '')'' \<and> c \<noteq> CHR '';'')"

text \<open>
  Two auxiliary notions for the search of a keyword \<open>k\<close>: the text differs from the keyword
  at some position that both have, and every non-empty suffix of a text does so.
\<close>

fun clash :: "string \<Rightarrow> string \<Rightarrow> bool" where
  "clash [] s = False"
| "clash (p # ps) [] = False"
| "clash (p # ps) (c # cs) = (canonicalize c \<noteq> canonicalize p \<or> clash ps cs)"

fun noStart :: "string \<Rightarrow> string \<Rightarrow> bool" where
  "noStart k [] = True"
| "noStart k (c # cs) = (clash k (c # cs) \<and> noStart k cs)"

text \<open>The text has no closing parenthesis directly followed by a semicolon and does not
  end with a closing parenthesis.\<close>

definition closeFree :: "string \<Rightarrow> bool" where
  "closeFree s \<longleftrightarrow> \<not> hasClose s \<and> (s = [] \<or> last s \<noteq> CHR '')'')"

text \<open>The metadata tuple text after its first character.\<close>

definition statementValuesTail :: "int \<Rightarrow> int \<Rightarrow> StatementData \<Rightarrow> string" where
  "statementValuesTail idNow savedNow data =
     ''    '' @ sqlEscape (Some (stmtId idNow data)) @ '',\<newline>'' @
     ''    '' @ sqlEscape (fileName data) @ '',\<newline>'' @
     ''    '' @ sqlEscape (bankName data) @ '',\<newline>'' @
     ''    '' @ sqlEscape (accountHolder data) @ '',\<newline>'' @
     ''    '' @ sqlEscape (period data) @ '',\<newline>'' @
     ''    '' @ numberToString (ofInt savedNow) @ ''\<newline>''"

section \<open>Example data\<close>

definition exampleTransaction :: Transaction where
  "exampleTransaction =
     \<lparr> date = ''01/01/2024'', amount = Fin (- 5) 4, description = ''ATM fee'',
       transaction_code = ''FT24001'', partner_name = ''ATM 0042'', partner_account = ''0011223344'',
       type = DEBIT, category = Some ''Fees'' \<rparr>"

definition exampleStatement :: StatementData where
  "exampleStatement =
     \<lparr> id' = Some ''s1'', fileName = Some ''statement.pdf'', savedAt = Some (Fin 17 11),
       bankName = Some ''Bank A'', accountHolder = Some ''NGUYEN VAN A'', period = Some ''01/2024'',
       transactions = [exampleTransaction] \<rparr>"

definition exampleTimestamp :: string where
  "exampleTimestamp = ''2026-11-03T02:29:00.000Z''"


text \<open>A hand-written document whose sixth metadata value is the null token.\<close>

definition nullSavedAtDocument :: string where
  "nullSavedAtDocument = ''INSERT INTO statements (id) VALUES (1, 2, 3, 4, 5, NULL);''"

definition plainDocument :: string where
  "plainDocument = ''INSERT INTO statements (id) VALUES (1, 2, 3, 4, 5, 6);''"


text \<open>The example statement with a file name that holds a closing parenthesis and a
  semicolon, and with an amount of one ten-millionth.\<close>

definition closingFileNameStatement :: StatementData where
  "closingFileNameStatement = exampleStatement\<lparr>fileName := Some ''a);b''\<rparr>"

definition smallAmountStatement :: StatementData where
  "smallAmountStatement =
     exampleStatement\<lparr>transactions := [exampleTransaction\<lparr>amount := Fin 1 (- 7)\<rparr>]\<rparr>"

text \<open>
  The example statement with a description that holds the words of a transaction insert
  statement and a tuple of nine numbers, and the row that such a tuple decodes to.
\<close>

definition injectedStatement :: StatementData where
  "injectedStatement =
     exampleStatement\<lparr>transactions :=
       [exampleTransaction\<lparr>description :=
          ''; DROP INSERT INTO transactions VALUES (1,2,3,4,5,6,7,8,9)''\<rparr>]\<rparr>"

definition phantomRow :: Transaction where
  "phantomRow =
     \<lparr> date = ''2'', amount = Fin 3 0, description = ''4'', transaction_code = ''5'',
       partner_name = ''6'', partner_account = ''7'', type = DEBIT, category = Some ''9'' \<rparr>"

text \<open>Two transactions, the first with such a description.\<close>

definition nestedStatement :: StatementData where
  "nestedStatement =
     exampleStatement\<lparr>transactions :=
       [exampleTransaction\<lparr>description :=
          ''INSERT INTO transactions VALUES (1,2,3,4,5,6,7,8,9)''\<rparr>,
        exampleTransaction\<lparr>date := ''02/01/2024''\<rparr>]\<rparr>"

text \<open>A hand-written document whose sixth metadata value is a numeral below the range of
  the floating point numbers.\<close>

definition tinySavedAtDocument :: string where
  "tinySavedAtDocument =
     ''INSERT INTO statements (id) VALUES (1, 2, 3, 4, 5, 0.'' @ replicate 400 (CHR ''0'') @ ''1);''"

text \<open>The example statement with a file name of \<open>n + 1\<close> letters, and with an empty id.\<close>

definition longFileNameStatement :: "nat \<Rightarrow> StatementData" where
  "longFileNameStatement n = exampleStatement\<lparr>fileName := Some (replicate (Suc n) (CHR ''a''))\<rparr>"


text \<open>
  The record that decoding returns for the backup of a record, where the round trip works:
  the id token of the encoder, the metadata fields with the defaults of the decoder for
  absent values, the clock reading of the encoder as \<^verbatim>\<open>savedAt\<close> (that of the decoder when
  the encoder read zero), and the transactions with the empty string for an absent
  category.
\<close>

abbreviation decoded :: "int \<Rightarrow> int \<Rightarrow> int \<Rightarrow> StatementData \<Rightarrow> StatementData" where
  "decoded now idNow savedNow data \<equiv>
     \<lparr> id' = Some (stmtId idNow data),
       fileName = Some (case fileName data of
                          None \<Rightarrow> ''Recovered_Statement''
                        | Some s \<Rightarrow> if s = [] then ''Recovered_Statement'' else s),
       savedAt = Some (if savedNow = 0 then ofInt now else ofInt savedNow),
       bankName = Some (case bankName data of None \<Rightarrow> [] | Some s \<Rightarrow> s),
       accountHolder = Some (case accountHolder data of None \<Rightarrow> [] | Some s \<Rightarrow> s),
       period = Some (case period data of None \<Rightarrow> [] | Some s \<Rightarrow> s),
       transactions =
         map (\<lambda>tx. tx\<lparr>category := Some (case category tx of None \<Rightarrow> [] | Some c \<Rightarrow> c)\<rparr>)
           (transactions data) \<rparr>"

section \<open>Basic facts\<close>

lemma doubleQuotes_Nil [simp]: "doubleQuotes [] = []"
  by (simp add: doubleQuotes_def)

lemma doubleQuotes_Cons [simp]:
  "doubleQuotes (c # cs) = (if c = quote then quote # quote # doubleQuotes cs else c # doubleQuotes cs)"
  by (simp add: doubleQuotes_def)

lemma canonicalize_other: "c \<notin> set ''abcdefghijklmnopqrstuvwxyz'' \<Longrightarrow> canonicalize c = c"
  unfolding canonicalize_def by simp

lemma canonicalize_N [simp]: "canonicalize (CHR ''N'') = CHR ''N''"
  by (simp add: canonicalize_other)

lemma quotedRun_doubleQuotes:
  "rest = [] \<or> hd rest \<noteq> quote \<Longrightarrow>
   quotedRun (doubleQuotes s @ quote # rest) = Some (doubleQuotes s, rest)"
proof (induction s)
  case Nil
  then show ?case by (cases rest) auto
next
  case (Cons x xs)
  then show ?case by auto
qed

lemma unescape_doubleQuotes: "unescape (doubleQuotes s) = s"
proof (induction s)
  case Nil
  show ?case by simp
next
  case (Cons x xs)
  show ?case
  proof (cases "x = quote")
    case True
    with Cons show ?thesis by simp
  next
    case False
    show ?thesis
    proof (cases "doubleQuotes xs")
      case Nil
      with False Cons show ?thesis by simp
    next
      case (Cons b cs)
      with False Cons.IH show ?thesis by simp
    qed
  qed
qed

lemma extractValues_sqlEscape:
  assumes "rest = [] \<or> hd rest \<noteq> quote"
  shows "extractValues (sqlEscape (Some s) @ rest) = VStr s # extractValues rest"
  using quotedRun_doubleQuotes [OF assms, of s]
  by (simp add: sqlEscape_def extractValues.simps unescape_doubleQuotes)

lemma extractValues_skip:
  "c \<noteq> quote \<Longrightarrow> canonicalize c \<noteq> CHR ''N'' \<Longrightarrow> \<not> isNumberChar c \<Longrightarrow>
   extractValues (c # cs) = extractValues cs"
  by (simp add: extractValues.simps matchNumber_def)

lemma digitsOf_nonempty: "digitsOf n \<noteq> []"
  by (subst digitsOf.simps) simp


lemma savedAt_ignored:
  "generateSQL timestamp idNow savedNow (data\<lparr>savedAt := x\<rparr>) =
   generateSQL timestamp idNow savedNow data"
  by (simp add: generateSQL_def headerComment_def bankLabel_def insertStatement_def
      statementValues_def insertTransactions_def stmtId_def)

lemma isNumberChar_simps [simp]:
  "\<not> isNumberChar (CHR '' '')" "\<not> isNumberChar (CHR ''\<newline>'')" "\<not> isNumberChar (CHR ''('')"
  "\<not> isNumberChar (CHR '','')" "\<not> isNumberChar (CHR '')'')"
  by (simp_all add: isNumberChar_def isDigit_def)

lemma canonicalize_punct [simp]:
  "canonicalize (CHR '' '') = CHR '' ''" "canonicalize (CHR ''\<newline>'') = CHR ''\<newline>''"
  "canonicalize (CHR ''('') = CHR ''(''" "canonicalize (CHR '','') = CHR '',''"
  "canonicalize (CHR '')'') = CHR '')''"
  by (simp_all add: canonicalize_other)


lemma hd_extractValues_transactionRow:
  "hd (extractValues (transactionRow sid tx)) = VStr sid"
  by (simp add: transactionRow_def rowValues_def extractValues_skip extractValues_sqlEscape)

section \<open>Numbers and their decimal texts\<close>

text \<open>The text of a positional number is a sign, digits and an optional fraction, and
  reading it back gives the number.\<close>

lemma digitVal_digitChar: "digitVal (digitChar d) = d mod 10"
proof -
  have t: "list_all (\<lambda>i. int (of_char (''0123456789'' ! i)) - 48 = int i) [0 ..< 10]"
    by code_simp
  have "nat (d mod 10) \<in> set [0 ..< 10]" by simp
  with t have "int (of_char (''0123456789'' ! nat (d mod 10))) - 48 = int (nat (d mod 10))"
    unfolding list_all_iff by blast
  then show ?thesis by (simp add: digitVal_def digitChar_def)
qed

lemma isDigit_digitChar: "isDigit (digitChar d)"
proof -
  have "nat (d mod 10) < 10" by simp
  then have "''0123456789'' ! nat (d mod 10) \<in> set ''0123456789''"
    by (intro nth_mem) simp
  then show ?thesis by (simp only: digitChar_def isDigit_def)
qed

lemma valueOfDigits_snoc: "valueOfDigits (xs @ [c]) = 10 * valueOfDigits xs + digitVal c"
  by (simp add: valueOfDigits_def)

lemma valueOfDigits_digitsOf: "0 \<le> n \<Longrightarrow> valueOfDigits (digitsOf n) = n"
proof (induction n rule: digitsOf.induct)
  case (1 n)
  show ?case
  proof (cases "n < 10")
    case True
    with "1.prems" show ?thesis
      by (subst digitsOf.simps) (simp add: valueOfDigits_def digitVal_digitChar)
  next
    case False
    with "1.prems" have "0 \<le> n div 10" by simp
    with "1.IH" False have "valueOfDigits (digitsOf (n div 10)) = n div 10" by simp
    with False show ?thesis
      by (subst digitsOf.simps) (simp add: valueOfDigits_snoc digitVal_digitChar)
  qed
qed

lemma list_all_isDigit_digitsOf: "list_all isDigit (digitsOf n)"
proof (induction n rule: digitsOf.induct)
  case (1 n)
  then show ?case by (subst digitsOf.simps) (simp add: isDigit_digitChar)
qed

lemma valueOfDigits_append:
  "valueOfDigits (xs @ ys) = valueOfDigits xs * 10 ^ length ys + valueOfDigits ys"
proof (induction ys rule: rev_induct)
  case Nil
  show ?case by (simp add: valueOfDigits_def)
next
  case (snoc y ys)
  have "valueOfDigits (xs @ ys @ [y]) = 10 * valueOfDigits (xs @ ys) + digitVal y"
    using valueOfDigits_snoc [of "xs @ ys" y] by simp
  with snoc show ?case by (simp add: valueOfDigits_snoc algebra_simps)
qed

lemma valueOfDigits_zeros: "valueOfDigits (replicate j (CHR ''0'')) = 0"
proof (induction j)
  case 0
  show ?case by (simp add: valueOfDigits_def)
next
  case (Suc j)
  have "replicate (Suc j) (CHR ''0'') = replicate j (CHR ''0'') @ [CHR ''0'']"
    by (simp add: replicate_append_same)
  with Suc show ?case by (simp only: valueOfDigits_snoc) (simp add: digitVal_def)
qed

lemma stripZeros_nodiv: "m mod 10 \<noteq> 0 \<Longrightarrow> stripZeros m e = (m, e)"
  by (subst stripZeros.simps) simp

lemma stripZeros_pow: "m mod 10 \<noteq> 0 \<Longrightarrow> stripZeros (m * 10 ^ j) e = (m, e + int j)"
proof (induction j arbitrary: e)
  case 0
  then show ?case by (simp add: stripZeros_nodiv)
next
  case (Suc j)
  from Suc.prems have "m \<noteq> 0" by auto
  then have "stripZeros (m * 10 ^ Suc j) e = stripZeros (m * 10 ^ j) (e + 1)"
    by (subst stripZeros.simps) simp
  with Suc show ?case by simp
qed

lemma abs_mod10: "(m :: int) mod 10 \<noteq> 0 \<Longrightarrow> \<bar>m\<bar> mod 10 \<noteq> 0"
  by (simp add: mod_eq_0_iff_dvd)

lemma numberToString_positional:
  assumes "positional (Fin m e)"
  obtains ip fp where "ip \<noteq> []" "list_all isDigit ip" "list_all isDigit fp"
    "numberToString (Fin m e) =
       (if m < 0 then ''-'' else []) @ ip @ (if fp = [] then [] else CHR ''.'' # fp)"
    "mkFin (valueOfDigits (ip @ fp)) (- int (length fp)) = Fin \<bar>m\<bar> e"
proof (cases "m = 0")
  case True
  with assms have e: "e = 0" by (simp add: positional_def)
  show ?thesis
  proof (rule that [of "''0''" "[]"])
    show "numberToString (Fin m e) =
       (if m < 0 then ''-'' else []) @ ''0'' @ (if [] = [] then [] else CHR ''.'' # [])"
      using True by (simp add: numberToString_def)
    show "mkFin (valueOfDigits (''0'' @ [])) (- int (length [])) = Fin \<bar>m\<bar> e"
      using True e by (simp add: mkFin_def valueOfDigits_def digitVal_def)
  qed (simp_all add: isDigit_def)
next
  case False
  define a where "a = \<bar>m\<bar>"
  define ds where "ds = digitsOf a"
  define k where "k = int (length ds)"
  define n where "n = k + e"
  from False assms have m10: "m mod 10 \<noteq> 0" and lo: "- 6 < n" and hi: "n \<le> 21"
    by (simp_all add: positional_def n_def k_def ds_def a_def)
  from False have apos: "0 < a" by (simp add: a_def)
  from m10 have a10: "a mod 10 \<noteq> 0" unfolding a_def by (rule abs_mod10)
  have dsne: "ds \<noteq> []" unfolding ds_def by (rule digitsOf_nonempty)
  then have kpos: "0 < k" by (simp add: k_def)
  have dsd: "list_all isDigit ds" unfolding ds_def by (rule list_all_isDigit_digitsOf)
  have dsv: "valueOfDigits ds = a" unfolding ds_def using apos by (simp add: valueOfDigits_digitsOf)
  have str: "numberToString (Fin m e) = (if m < 0 then ''-'' else []) @ positiveToString a e"
    using False a10 by (simp add: numberToString_def a_def [symmetric] stripZeros_nodiv)
  have zd: "list_all isDigit (replicate j (CHR ''0''))" for j
    by (simp add: list_all_iff isDigit_def)
  consider (A) "0 \<le> e" | (B) "e < 0" "0 < n" | (C) "n \<le> 0" by linarith
  then show ?thesis
  proof cases
    case A
    then have p: "positiveToString a e = ds @ replicate (nat e) (CHR ''0'')"
      using hi by (simp add: positiveToString_def Let_def ds_def [symmetric] k_def [symmetric] n_def [symmetric])
    show ?thesis
    proof (rule that [of "ds @ replicate (nat e) (CHR ''0'')" "[]"])
      show "ds @ replicate (nat e) (CHR ''0'') \<noteq> []" using dsne by simp
      show "list_all isDigit (ds @ replicate (nat e) (CHR ''0''))" using dsd zd by simp
      show "list_all isDigit []" by simp
      show "numberToString (Fin m e) =
         (if m < 0 then ''-'' else []) @ (ds @ replicate (nat e) (CHR ''0'')) @
         (if [] = [] then [] else CHR ''.'' # [])"
        using str p by simp
      have "valueOfDigits (ds @ replicate (nat e) (CHR ''0'')) = a * 10 ^ nat e"
        by (simp add: valueOfDigits_append valueOfDigits_zeros dsv)
      moreover have "mkFin (a * 10 ^ nat e) 0 = Fin a e"
        using apos A by (simp add: mkFin_def stripZeros_pow [OF a10])
      ultimately show "mkFin (valueOfDigits ((ds @ replicate (nat e) (CHR ''0'')) @ [])) (- int (length [])) = Fin \<bar>m\<bar> e"
        by (simp add: a_def)
    qed
  next
    case B
    from B have nk: "nat n < length ds" by (simp add: n_def k_def)
    from B have p: "positiveToString a e = take (nat n) ds @ ''.'' @ drop (nat n) ds"
      using hi by (simp add: positiveToString_def Let_def ds_def [symmetric] k_def [symmetric] n_def [symmetric])
    show ?thesis
    proof (rule that [of "take (nat n) ds" "drop (nat n) ds"])
      show "take (nat n) ds \<noteq> []" using B dsne by simp
      show "list_all isDigit (take (nat n) ds)" using dsd by (auto simp: list_all_iff dest: in_set_takeD)
      show "list_all isDigit (drop (nat n) ds)" using dsd by (auto simp: list_all_iff dest: in_set_dropD)
      have dne: "drop (nat n) ds \<noteq> []" using nk by simp
      show "numberToString (Fin m e) =
         (if m < 0 then ''-'' else []) @ take (nat n) ds @
         (if drop (nat n) ds = [] then [] else CHR ''.'' # drop (nat n) ds)"
        using str p dne by simp
      have "- int (length (drop (nat n) ds)) = e" using B nk by (simp add: n_def k_def)
      moreover have "mkFin a e = Fin a e" using apos by (simp add: mkFin_def stripZeros_nodiv [OF a10])
      ultimately show "mkFin (valueOfDigits (take (nat n) ds @ drop (nat n) ds))
          (- int (length (drop (nat n) ds))) = Fin \<bar>m\<bar> e"
        by (simp add: dsv a_def)
    qed
  next
    case C
    from C kpos have eneg: "e < 0" by (simp add: n_def)
    from C have p: "positiveToString a e = ''0.'' @ replicate (nat (- n)) (CHR ''0'') @ ds"
      using lo eneg by (simp add: positiveToString_def Let_def ds_def [symmetric] k_def [symmetric] n_def [symmetric])
    show ?thesis
    proof (rule that [of "''0''" "replicate (nat (- n)) (CHR ''0'') @ ds"])
      show "''0'' \<noteq> []" by simp
      show "list_all isDigit ''0''" by (simp add: isDigit_def)
      show "list_all isDigit (replicate (nat (- n)) (CHR ''0'') @ ds)" using dsd zd by simp
      have fne: "replicate (nat (- n)) (CHR ''0'') @ ds \<noteq> []" using dsne by simp
      show "numberToString (Fin m e) =
         (if m < 0 then ''-'' else []) @ ''0'' @
         (if replicate (nat (- n)) (CHR ''0'') @ ds = [] then []
          else CHR ''.'' # replicate (nat (- n)) (CHR ''0'') @ ds)"
        using str p fne by simp
      have v: "valueOfDigits (''0'' @ replicate (nat (- n)) (CHR ''0'') @ ds) = a"
        by (simp only: valueOfDigits_append valueOfDigits_zeros dsv)
           (simp add: valueOfDigits_def digitVal_def)
      have "- int (length (replicate (nat (- n)) (CHR ''0'') @ ds)) = e"
        using C by (simp add: n_def k_def)
      moreover have "mkFin a e = Fin a e" using apos by (simp add: mkFin_def stripZeros_nodiv [OF a10])
      ultimately show "mkFin (valueOfDigits (''0'' @ replicate (nat (- n)) (CHR ''0'') @ ds))
          (- int (length (replicate (nat (- n)) (CHR ''0'') @ ds))) = Fin \<bar>m\<bar> e"
        by (simp only: v) (simp add: a_def)
    qed
  qed
qed

text \<open>Reading the text of a positional number gives the number back.\<close>

text \<open>
  The two range tests compare with the bounds themselves: the shortcut on the number of
  digits never changes the answer.
\<close>

lemma digitsOf_upper: "0 \<le> m \<Longrightarrow> m < 10 ^ length (digitsOf m)"
proof (induction m rule: digitsOf.induct)
  case (1 n)
  show ?case
  proof (cases "n < 10")
    case True
    then show ?thesis by (subst digitsOf.simps) simp
  next
    case False
    with "1.prems" have "0 \<le> n div 10" by simp
    with "1.IH" False have "n div 10 < 10 ^ length (digitsOf (n div 10))" by simp
    then have "n < 10 * 10 ^ length (digitsOf (n div 10))" by linarith
    with False show ?thesis by (subst digitsOf.simps) simp
  qed
qed

lemma digitsOf_lower: "0 < m \<Longrightarrow> 10 ^ (length (digitsOf m) - 1) \<le> m"
proof (induction m rule: digitsOf.induct)
  case (1 n)
  show ?case
  proof (cases "n < 10")
    case True
    with "1.prems" show ?thesis by (subst digitsOf.simps) simp
  next
    case False
    then have "0 < n div 10" by simp
    with "1.IH" False have "10 ^ (length (digitsOf (n div 10)) - 1) \<le> n div 10" by simp
    then have "10 * 10 ^ (length (digitsOf (n div 10)) - 1) \<le> n" by linarith
    moreover have "length (digitsOf (n div 10)) \<noteq> 0" using digitsOf_nonempty by simp
    then have "(10::int) * 10 ^ (length (digitsOf (n div 10)) - 1) = 10 ^ length (digitsOf (n div 10))"
      by (cases "length (digitsOf (n div 10))") simp_all
    ultimately show ?thesis using False by (subst digitsOf.simps) simp
  qed
qed

lemma tooSmall_iff:
  assumes "0 < m"
  shows "tooSmall m e \<longleftrightarrow> e < 0 \<and> m * 2 ^ 1075 \<le> 10 ^ nat (- e)"
proof (cases "- 323 < int (length (digitsOf m)) + e")
  case False
  moreover have "0 < length (digitsOf m)" using digitsOf_nonempty by simp
  ultimately have "e < 0" by linarith
  with False show ?thesis by (simp add: tooSmall_def)
next
  case True
  define k where "k = length (digitsOf m)"
  have kpos: "0 < k" unfolding k_def using digitsOf_nonempty by simp
  have "\<not> (e < 0 \<and> m * 2 ^ 1075 \<le> 10 ^ nat (- e))"
  proof
    assume a: "e < 0 \<and> m * 2 ^ 1075 \<le> 10 ^ nat (- e)"
    from True a have "nat (- e) \<le> (k - 1) + 323" using kpos by (simp add: k_def)
    then have "(10::int) ^ nat (- e) \<le> 10 ^ ((k - 1) + 323)"
      by (intro power_increasing) simp_all
    also have "\<dots> = 10 ^ (k - 1) * 10 ^ 323" by (simp add: power_add)
    also have "\<dots> \<le> m * 10 ^ 323"
      using digitsOf_lower [OF assms] by (simp add: k_def)
    also have "\<dots> < m * 2 ^ 1075"
      using assms by (intro mult_strict_left_mono) simp_all
    finally show False using a by simp
  qed
  with True show ?thesis by (simp add: tooSmall_def)
qed

lemma tooLarge_iff:
  assumes "0 < m"
  shows "tooLarge m e \<longleftrightarrow>
         (if 0 \<le> e then 2 ^ 1024 - 2 ^ 970 \<le> m * 10 ^ nat e
          else (2 ^ 1024 - 2 ^ 970) * 10 ^ nat (- e) \<le> m)"
proof (cases "int (length (digitsOf m)) + e \<le> 308")
  case False
  then show ?thesis by (simp add: tooLarge_def)
next
  case True
  define k where "k = length (digitsOf m)"
  from assms have up: "m < 10 ^ k" unfolding k_def by (intro digitsOf_upper) simp
  have big: "(10::int) ^ 308 < 2 ^ 1024 - 2 ^ 970" by simp
  have "\<not> (if 0 \<le> e then 2 ^ 1024 - 2 ^ 970 \<le> m * 10 ^ nat e
          else (2 ^ 1024 - 2 ^ 970) * 10 ^ nat (- e) \<le> m)"
  proof (cases "0 \<le> e")
    case e: True
    from True e have "k + nat e \<le> 308" by (simp add: k_def)
    have "m * 10 ^ nat e < 10 ^ k * 10 ^ nat e"
      using up by (intro mult_strict_right_mono) simp_all
    also have "\<dots> = 10 ^ (k + nat e)" by (simp add: power_add)
    also have "\<dots> \<le> 10 ^ 308"
      using \<open>k + nat e \<le> 308\<close> by (intro power_increasing) simp_all
    finally have "m * 10 ^ nat e < 2 ^ 1024 - 2 ^ 970" using big by linarith
    with e show ?thesis by simp
  next
    case e: False
    from True e have "k \<le> 308 + nat (- e)" by (simp add: k_def)
    then have "(10::int) ^ k \<le> 10 ^ (308 + nat (- e))"
      by (intro power_increasing) simp_all
    also have "\<dots> = 10 ^ 308 * 10 ^ nat (- e)" by (simp add: power_add)
    also have "\<dots> < (2 ^ 1024 - 2 ^ 970) * 10 ^ nat (- e)"
      using big by (intro mult_strict_right_mono) simp_all
    finally have "m < (2 ^ 1024 - 2 ^ 970) * 10 ^ nat (- e)" using up by linarith
    with e show ?thesis by simp
  qed
  with True show ?thesis by (simp add: tooLarge_def)
qed

text \<open>Numerals at the ends of the range.\<close>

lemma stringToNumber_underflow:
  "stringToNumber (''0.'' @ replicate 400 (CHR ''0'') @ ''1'') = Fin 0 0"
  by code_simp

lemma stringToNumber_range:
  "stringToNumber ''1e400'' = PosInfinity" "stringToNumber ''-2e308'' = NegInfinity"
  "stringToNumber ''1e308'' = Fin 1 308" "stringToNumber ''5e-324'' = Fin 5 (- 324)"
  "stringToNumber ''2e-324'' = Fin 0 0"
  by code_simp+

text \<open>A positional number is inside the range.\<close>

lemma fromDecimal_positional:
  assumes "positional (Fin m e)" and "0 \<le> m"
  shows "(case Fin m e of
            Fin m' e' \<Rightarrow>
              if tooSmall m' e' then Fin 0 0
              else if tooLarge m' e' then PosInfinity
              else Fin m' e'
          | x \<Rightarrow> x) = Fin m e"
proof (cases "m = 0")
  case True
  with assms have "e = 0" by (simp add: positional_def)
  moreover have "length (digitsOf 0) = 1" by (subst digitsOf.simps) simp
  ultimately show ?thesis using True by (simp add: tooSmall_def tooLarge_def)
next
  case False
  with assms have "- 6 < int (length (digitsOf \<bar>m\<bar>)) + e" "int (length (digitsOf \<bar>m\<bar>)) + e \<le> 21"
    by (simp_all add: positional_def)
  moreover from assms(2) have "\<bar>m\<bar> = m" by simp
  ultimately show ?thesis by (simp add: tooSmall_def tooLarge_def)
qed

lemma takeWhile_all:
  "list_all P xs \<Longrightarrow> r = [] \<or> \<not> P (hd r) \<Longrightarrow> takeWhile P (xs @ r) = xs"
  by (induction xs) (auto simp: takeWhile_eq_Nil_iff neq_Nil_conv)

lemma dropWhile_all:
  "list_all P xs \<Longrightarrow> r = [] \<or> \<not> P (hd r) \<Longrightarrow> dropWhile P (xs @ r) = r"
  by (induction xs) (auto simp: dropWhile_eq_self_iff neq_Nil_conv)

lemma isDigit_not_special:
  "isDigit c \<Longrightarrow> \<not> isSpace c \<and> c \<noteq> CHR ''.'' \<and> c \<noteq> CHR ''-'' \<and> c \<noteq> CHR ''+'' \<and> c \<noteq> quote \<and>
     c \<noteq> CHR ''I'' \<and> c \<noteq> CHR ''x'' \<and> c \<noteq> CHR ''X'' \<and> c \<noteq> CHR ''o'' \<and> c \<noteq> CHR ''O'' \<and>
     c \<noteq> CHR ''b'' \<and> c \<noteq> CHR ''B'' \<and> c \<noteq> CHR ''e'' \<and> c \<noteq> CHR ''E'' \<and> c \<noteq> CHR '',''"
  by (auto simp: isDigit_def isSpace_def)

lemma parseDecimal_digits:
  assumes "ip \<noteq> []" "list_all isDigit ip" "list_all isDigit fp"
  shows "parseDecimal (ip @ (if fp = [] then [] else CHR ''.'' # fp)) =
         fromDecimal (valueOfDigits (ip @ fp)) (- int (length fp))"
proof -
  obtain c cs where ip: "ip = c # cs" using assms(1) by (cases ip) auto
  with assms(2) have c: "isDigit c" by simp
  let ?fr = "if fp = [] then [] else CHR ''.'' # fp"
  have ninf: "ip @ ?fr \<noteq> ''Infinity''" using ip isDigit_not_special [OF c] by auto
  have fr: "?fr = [] \<or> \<not> isDigit (hd ?fr)" by (simp add: isDigit_def)
  have t1: "takeWhile isDigit (ip @ ?fr) = ip" by (rule takeWhile_all [OF assms(2) fr])
  have d1: "dropWhile isDigit (ip @ ?fr) = ?fr" by (rule dropWhile_all [OF assms(2) fr])
  have t2: "takeWhile isDigit fp = fp" using takeWhile_all [OF assms(3), of "[]"] by simp
  have d2: "dropWhile isDigit fp = []" using dropWhile_all [OF assms(3), of "[]"] by simp
  show ?thesis
    unfolding parseDecimal_def Let_def t1 d1
    using ninf assms(1) by (auto simp: t2 d2 parseExponent_def)
qed

lemma trimSpace_id:
  "s \<noteq> [] \<Longrightarrow> \<not> isSpace (hd s) \<Longrightarrow> \<not> isSpace (last s) \<Longrightarrow> trimSpace s = s"
proof -
  assume a: "s \<noteq> []" "\<not> isSpace (hd s)" "\<not> isSpace (last s)"
  then have 1: "dropWhile isSpace s = s" by (cases s) auto
  from a have "rev s \<noteq> []" "\<not> isSpace (hd (rev s))" by (simp_all add: hd_rev)
  then have "dropWhile isSpace (rev s) = rev s" by (cases "rev s") auto
  with 1 show ?thesis by (simp add: trimSpace_def)
qed

lemma parseRadix_None:
  assumes "s = c # cs" and "c = CHR ''-'' \<or> (isDigit c \<and> (cs = [] \<or> isDigit (hd cs) \<or> hd cs = CHR ''.''))"
  shows "parseRadix s = None"
proof (cases cs)
  case Nil
  with assms show ?thesis by (simp add: parseRadix_def)
next
  case (Cons p r)
  show ?thesis
  proof (cases r)
    case Nil
    with Cons assms show ?thesis by (simp add: parseRadix_def)
  next
    case (Cons d ds)
    from assms(2) show ?thesis
    proof
      assume "c = CHR ''-''"
      with assms(1) \<open>cs = p # r\<close> Cons show ?thesis by (simp add: parseRadix_def)
    next
      assume a: "isDigit c \<and> (cs = [] \<or> isDigit (hd cs) \<or> hd cs = CHR ''.'')"
      with \<open>cs = p # r\<close> have "isDigit p \<or> p = CHR ''.''" by simp
      then have "p \<noteq> CHR ''x'' \<and> p \<noteq> CHR ''X'' \<and> p \<noteq> CHR ''o'' \<and> p \<noteq> CHR ''O'' \<and>
                 p \<noteq> CHR ''b'' \<and> p \<noteq> CHR ''B''"
        by (auto simp: isDigit_def)
      with assms(1) \<open>cs = p # r\<close> Cons show ?thesis by (simp add: parseRadix_def)
    qed
  qed
qed

lemma last_digits:
  "ip \<noteq> [] \<Longrightarrow> list_all isDigit ip \<Longrightarrow> list_all isDigit fp \<Longrightarrow>
   isDigit (last (sg @ ip @ (if fp = [] then [] else CHR ''.'' # fp)))"
  by (cases "fp = []") (auto simp: list_all_iff)

theorem stringToNumber_numberToString:
  assumes "positional x"
  shows "stringToNumber (numberToString x) = x"
proof -
  from assms obtain m e where x: "x = Fin m e" by (cases x) (simp_all add: positional_def)
  from assms x have pos: "positional (Fin m e)" by simp
  from numberToString_positional [OF pos] obtain ip fp where
    ip: "ip \<noteq> []" "list_all isDigit ip" and fp: "list_all isDigit fp" and
    str: "numberToString (Fin m e) =
       (if m < 0 then ''-'' else []) @ ip @ (if fp = [] then [] else CHR ''.'' # fp)" and
    val: "mkFin (valueOfDigits (ip @ fp)) (- int (length fp)) = Fin \<bar>m\<bar> e"
    by blast
  let ?fr = "if fp = [] then [] else CHR ''.'' # fp"
  obtain c cs where ipc: "ip = c # cs" using ip(1) by (cases ip) auto
  with ip(2) have cd: "isDigit c" by simp
  have "positional (Fin \<bar>m\<bar> e)" using pos by (simp add: positional_def abs_mod10)
  then have "fromDecimal (valueOfDigits (ip @ fp)) (- int (length fp)) = Fin \<bar>m\<bar> e"
    unfolding fromDecimal_def val by (rule fromDecimal_positional) simp
  then have pd: "parseDecimal (ip @ ?fr) = Fin \<bar>m\<bar> e"
    using parseDecimal_digits [OF ip fp] by simp
  have lastd: "isDigit (last (sg @ ip @ ?fr))" for sg
    by (rule last_digits [OF ip fp])
  have nxt: "cs @ ?fr = [] \<or> isDigit (hd (cs @ ?fr)) \<or> hd (cs @ ?fr) = CHR ''.''"
    using ip(2) ipc by (cases cs) auto
  show ?thesis
  proof (cases "m < 0")
    case True
    let ?s = "CHR ''-'' # ip @ ?fr"
    have s: "numberToString (Fin m e) = ?s" using str True by simp
    have "\<not> isSpace (last ?s)" using lastd [of "''-''"] isDigit_not_special by auto
    then have tr: "trimSpace ?s = ?s" by (intro trimSpace_id) (simp_all add: isSpace_def)
    have pr: "parseRadix ?s = None" by (rule parseRadix_None [OF refl]) simp
    have "stringToNumber ?s = negate (parseDecimal (ip @ ?fr))"
      unfolding stringToNumber_def Let_def tr pr by simp
    with pd True x s show ?thesis by (simp add: negate_def)
  next
    case False
    let ?s = "ip @ ?fr"
    have s: "numberToString (Fin m e) = ?s" using str False by simp
    have "\<not> isSpace (last ?s)" using lastd [of "[]"] isDigit_not_special by auto
    moreover have "\<not> isSpace (hd ?s)" using ipc cd isDigit_not_special by auto
    ultimately have tr: "trimSpace ?s = ?s" using ip(1) by (intro trimSpace_id) simp_all
    have sc: "?s = c # (cs @ ?fr)" using ipc by simp
    have pr: "parseRadix ?s = None"
      by (rule parseRadix_None [OF sc]) (use cd nxt in blast)
    have "stringToNumber ?s = parseDecimal ?s"
      unfolding stringToNumber_def Let_def tr pr
      using cd isDigit_not_special [of c] by (simp add: sc)
    with pd False x s show ?thesis by simp
  qed
qed

lemma matchNumber_numberToString_before:
  assumes "positional x" and "\<not> isNumberChar d" and "d \<noteq> CHR ''.''"
  shows "matchNumber (numberToString x @ d # r) = Some (numberToString x, d # r)"
proof -
  from assms obtain m e where x: "x = Fin m e" by (cases x) (simp_all add: positional_def)
  from assms x have pos: "positional (Fin m e)" by simp
  from numberToString_positional [OF pos] obtain ip fp where
    ip: "ip \<noteq> []" "list_all isDigit ip" and fp: "list_all isDigit fp" and
    str: "numberToString (Fin m e) =
       (if m < 0 then ''-'' else []) @ ip @ (if fp = [] then [] else CHR ''.'' # fp)"
    by blast
  from assms(2) have dd: "\<not> isDigit d" by (simp add: isNumberChar_def)
  let ?sg = "if m < 0 then ''-'' else []"
  have run: "list_all isNumberChar (?sg @ ip)"
    using ip(2) by (auto simp: isNumberChar_def list_all_iff)
  have ne: "?sg @ ip \<noteq> []" using ip(1) by simp
  show ?thesis
  proof (cases "fp = []")
    case True
    have t: "takeWhile isNumberChar ((?sg @ ip) @ d # r) = ?sg @ ip"
      by (rule takeWhile_all [OF run]) (simp add: assms(2))
    have d: "dropWhile isNumberChar ((?sg @ ip) @ d # r) = d # r"
      by (rule dropWhile_all [OF run]) (simp add: assms(2))
    from True str x have s: "numberToString x = ?sg @ ip" by simp
    show ?thesis unfolding s matchNumber_def Let_def t d using ne assms(3) by simp
  next
    case False
    have t: "takeWhile isNumberChar ((?sg @ ip) @ CHR ''.'' # fp @ d # r) = ?sg @ ip"
      by (rule takeWhile_all [OF run]) (simp add: isNumberChar_def isDigit_def)
    have dr: "dropWhile isNumberChar ((?sg @ ip) @ CHR ''.'' # fp @ d # r) =
             CHR ''.'' # fp @ d # r"
      by (rule dropWhile_all [OF run]) (simp add: isNumberChar_def isDigit_def)
    have t2: "takeWhile isDigit (fp @ d # r) = fp"
      by (rule takeWhile_all [OF fp]) (simp add: dd)
    have d2: "dropWhile isDigit (fp @ d # r) = d # r"
      by (rule dropWhile_all [OF fp]) (simp add: dd)
    from False str x have s: "numberToString x @ d # r = (?sg @ ip) @ CHR ''.'' # fp @ d # r"
      and s': "numberToString x = (?sg @ ip) @ CHR ''.'' # fp" by simp_all
    show ?thesis unfolding s matchNumber_def Let_def t dr
      using ne False by (simp add: t2 d2 s')
  qed
qed

lemma matchNumber_numberToString:
  assumes "positional x"
  shows "matchNumber (numberToString x @ CHR '','' # r) = Some (numberToString x, CHR '','' # r)"
  by (rule matchNumber_numberToString_before [OF assms]) (simp_all add: isNumberChar_def isDigit_def)

lemma numberToString_head:
  "\<exists>c cs. numberToString (Fin m e) = c # cs \<and> isNumberChar c"
proof -
  have d: "\<exists>c cs. digitsOf n = c # cs \<and> isDigit c" for n
    using digitsOf_nonempty [of n] list_all_isDigit_digitsOf [of n]
    by (cases "digitsOf n") auto
  have p: "\<exists>c cs. positiveToString s e' = c # cs \<and> isDigit c" for s e'
  proof -
    from d [of s] obtain c cs where ds: "digitsOf s = c # cs" and c: "isDigit c" by blast
    have z: "isDigit (CHR ''0'')" by (simp add: isDigit_def)
    show ?thesis
      unfolding positiveToString_def Let_def ds
      using c z by (auto simp: take_Cons' nat_le_iff split: if_splits)
  qed
  show ?thesis
  proof (cases "m = 0")
    case True
    then show ?thesis by (simp add: numberToString_def isNumberChar_def isDigit_def)
  next
    case False
    obtain s e' where st: "stripZeros \<bar>m\<bar> e = (s, e')" by (cases "stripZeros \<bar>m\<bar> e")
    from p [of s e'] obtain c cs where "positiveToString s e' = c # cs" "isDigit c" by blast
    with False st show ?thesis by (auto simp: numberToString_def isNumberChar_def)
  qed
qed

section \<open>The scan of a block\<close>

lemma scanBlock_steps:
  "scanBlock (quote # quote # cs) True d t = scanBlock cs True d (extend t [quote, quote])"
  "cs = [] \<or> hd cs \<noteq> quote \<Longrightarrow>
     scanBlock (quote # cs) True d t = scanBlock cs False d (extend t [quote])"
  "c \<noteq> quote \<Longrightarrow> scanBlock (c # cs) True d t = scanBlock cs True d (extend t [c])"
  "scanBlock (quote # cs) False d t = scanBlock cs True d (extend t [quote])"
  "scanBlock (CHR ''('' # cs) False d t =
     scanBlock cs False (d + 1) (if d = 0 then Some [] else extend t ''('')"
  "d - 1 = 0 \<and> t \<noteq> None \<Longrightarrow>
     scanBlock (CHR '')'' # cs) False d t = toTransaction (extractValues (the t)) @ scanBlock cs False 0 None"
  "\<not> (d - 1 = 0 \<and> t \<noteq> None) \<Longrightarrow>
     scanBlock (CHR '')'' # cs) False d t = scanBlock cs False (d - 1) (extend t '')'')"
  "scanBlock (CHR '';'' # cs) False 0 t = []"
  "c \<noteq> quote \<Longrightarrow> c \<noteq> CHR ''('' \<Longrightarrow> c \<noteq> CHR '')'' \<Longrightarrow> \<not> (c = CHR '';'' \<and> d = 0) \<Longrightarrow>
     scanBlock (c # cs) False d t = scanBlock cs False d (extend t [c])"
proof -
  show "scanBlock (quote # quote # cs) True d t = scanBlock cs True d (extend t [quote, quote])"
    by (subst scanBlock.simps(2)) (simp del: scanBlock.simps)
  show "scanBlock (quote # cs) True d t = scanBlock cs False d (extend t [quote])"
    if "cs = [] \<or> hd cs \<noteq> quote"
    using that by (subst scanBlock.simps(2)) (cases cs; simp del: scanBlock.simps)
  show "scanBlock (c # cs) True d t = scanBlock cs True d (extend t [c])" if "c \<noteq> quote"
    using that by (subst scanBlock.simps(2)) (simp del: scanBlock.simps)
  show "scanBlock (quote # cs) False d t = scanBlock cs True d (extend t [quote])"
    by (subst scanBlock.simps(2)) (simp del: scanBlock.simps)
  show "scanBlock (CHR ''('' # cs) False d t =
     scanBlock cs False (d + 1) (if d = 0 then Some [] else extend t ''('')"
    by (subst scanBlock.simps(2)) (simp del: scanBlock.simps)
  show "scanBlock (CHR '')'' # cs) False d t = toTransaction (extractValues (the t)) @ scanBlock cs False 0 None"
    if "d - 1 = 0 \<and> t \<noteq> None"
    using that by (subst scanBlock.simps(2)) (simp del: scanBlock.simps)
  show "scanBlock (CHR '')'' # cs) False d t = scanBlock cs False (d - 1) (extend t '')'')"
    if "\<not> (d - 1 = 0 \<and> t \<noteq> None)"
    using that by (subst scanBlock.simps(2)) (auto simp del: scanBlock.simps)
  show "scanBlock (CHR '';'' # cs) False 0 t = []"
    by (subst scanBlock.simps(2)) (simp del: scanBlock.simps)
  show "scanBlock (c # cs) False d t = scanBlock cs False d (extend t [c])"
    if "c \<noteq> quote" "c \<noteq> CHR ''(''" "c \<noteq> CHR '')''" "\<not> (c = CHR '';'' \<and> d = 0)"
    using that by (subst scanBlock.simps(2)) (auto simp del: scanBlock.simps)
qed

lemma blockTuples_steps:
  "blockTuples (quote # quote # cs) True d t = blockTuples cs True d (extend t [quote, quote])"
  "cs = [] \<or> hd cs \<noteq> quote \<Longrightarrow>
     blockTuples (quote # cs) True d t = blockTuples cs False d (extend t [quote])"
  "c \<noteq> quote \<Longrightarrow> blockTuples (c # cs) True d t = blockTuples cs True d (extend t [c])"
  "blockTuples (quote # cs) False d t = blockTuples cs True d (extend t [quote])"
  "blockTuples (CHR ''('' # cs) False d t =
     blockTuples cs False (d + 1) (if d = 0 then Some [] else extend t ''('')"
  "d - 1 = 0 \<and> t \<noteq> None \<Longrightarrow>
     blockTuples (CHR '')'' # cs) False d t = the t # blockTuples cs False 0 None"
  "\<not> (d - 1 = 0 \<and> t \<noteq> None) \<Longrightarrow>
     blockTuples (CHR '')'' # cs) False d t = blockTuples cs False (d - 1) (extend t '')'')"
  "blockTuples (CHR '';'' # cs) False 0 t = []"
  "c \<noteq> quote \<Longrightarrow> c \<noteq> CHR ''('' \<Longrightarrow> c \<noteq> CHR '')'' \<Longrightarrow> \<not> (c = CHR '';'' \<and> d = 0) \<Longrightarrow>
     blockTuples (c # cs) False d t = blockTuples cs False d (extend t [c])"
proof -
  show "blockTuples (quote # quote # cs) True d t = blockTuples cs True d (extend t [quote, quote])"
    by (subst blockTuples.simps(2)) (simp del: blockTuples.simps)
  show "blockTuples (quote # cs) True d t = blockTuples cs False d (extend t [quote])"
    if "cs = [] \<or> hd cs \<noteq> quote"
    using that by (subst blockTuples.simps(2)) (cases cs; simp del: blockTuples.simps)
  show "blockTuples (c # cs) True d t = blockTuples cs True d (extend t [c])" if "c \<noteq> quote"
    using that by (subst blockTuples.simps(2)) (simp del: blockTuples.simps)
  show "blockTuples (quote # cs) False d t = blockTuples cs True d (extend t [quote])"
    by (subst blockTuples.simps(2)) (simp del: blockTuples.simps)
  show "blockTuples (CHR ''('' # cs) False d t =
     blockTuples cs False (d + 1) (if d = 0 then Some [] else extend t ''('')"
    by (subst blockTuples.simps(2)) (simp del: blockTuples.simps)
  show "blockTuples (CHR '')'' # cs) False d t = the t # blockTuples cs False 0 None"
    if "d - 1 = 0 \<and> t \<noteq> None"
    using that by (subst blockTuples.simps(2)) (simp del: blockTuples.simps)
  show "blockTuples (CHR '')'' # cs) False d t = blockTuples cs False (d - 1) (extend t '')'')"
    if "\<not> (d - 1 = 0 \<and> t \<noteq> None)"
    using that by (subst blockTuples.simps(2)) (auto simp del: blockTuples.simps)
  show "blockTuples (CHR '';'' # cs) False 0 t = []"
    by (subst blockTuples.simps(2)) (simp del: blockTuples.simps)
  show "blockTuples (c # cs) False d t = blockTuples cs False d (extend t [c])"
    if "c \<noteq> quote" "c \<noteq> CHR ''(''" "c \<noteq> CHR '')''" "\<not> (c = CHR '';'' \<and> d = 0)"
    using that by (subst blockTuples.simps(2)) (auto simp del: blockTuples.simps)
qed

declare scanBlock.simps(2) [simp del] blockTuples.simps(2) [simp del]

lemma scanBlock_blockTuples:
  "scanBlock s inString parenDepth tuple =
   concat (map (\<lambda>t. toTransaction (extractValues t)) (blockTuples s inString parenDepth tuple))"
proof (induction s inString parenDepth tuple rule: scanBlock.induct)
  case (1 inString parenDepth tuple)
  show ?case by simp
next
  case (2 c cs inString parenDepth tuple)
  note steps = scanBlock_steps blockTuples_steps
  show ?case
  proof (cases inString)
    case True
    show ?thesis
    proof (cases "c = quote")
      case False
      with True "2.IH"(4) [OF True False] show ?thesis by (simp add: steps)
    next
      case q: True
      show ?thesis
      proof (cases cs)
        case Nil
        with True q "2.IH"(1) [OF True q Nil] show ?thesis by (simp add: steps)
      next
        case (Cons c' cs')
        show ?thesis
        proof (cases "c' = quote")
          case True
          with \<open>inString\<close> q Cons "2.IH"(2) [OF \<open>inString\<close> q Cons True] show ?thesis
            by (simp add: steps)
        next
          case False
          with \<open>inString\<close> q Cons "2.IH"(3) [OF \<open>inString\<close> q Cons False] show ?thesis
            by (simp add: steps)
        qed
      qed
    qed
  next
    case nin: False
    show ?thesis
    proof (cases "c = quote")
      case True
      with nin "2.IH"(5) [OF nin True] show ?thesis by (simp add: steps)
    next
      case nq: False
      show ?thesis
      proof (cases "c = CHR ''(''")
        case True
        with nin nq "2.IH"(6) [OF nin nq True] show ?thesis
          by (cases "parenDepth = 0") (simp_all add: steps)
      next
        case np: False
        show ?thesis
        proof (cases "c = CHR '')''")
          case True
          note cl = this
          show ?thesis
          proof (cases "parenDepth - 1 = 0 \<and> tuple \<noteq> None")
            case True
            with nin nq np cl "2.IH"(7) [OF nin nq np cl True] show ?thesis
              by (simp add: steps)
          next
            case False
            with nin nq np cl "2.IH"(8) [OF nin nq np cl False] show ?thesis
              by (simp add: steps)
          qed
        next
          case nc: False
          show ?thesis
          proof (cases "c = CHR '';'' \<and> parenDepth = 0")
            case True
            with nin nq np nc show ?thesis
              by (simp add: steps)
          next
            case False
            with nin nq np nc "2.IH"(9) [OF nin nq np nc False] show ?thesis
              by (simp add: steps)
          qed
        qed
      qed
    qed
  qed
qed

lemma scanAll_completedTuples:
  "scanAll s = concat (map (\<lambda>t. toTransaction (extractValues t)) (completedTuples s))"
proof (induction s rule: scanAll.induct)
  case (1 s)
  show ?case
  proof (cases "insertRegexExec s")
    case None
    then show ?thesis by (simp add: scanAll.simps [of s] completedTuples.simps [of s])
  next
    case (Some r)
    with "1.IH" [OF Some] show ?thesis
      by (simp add: scanAll.simps [of s] completedTuples.simps [of s] scanBlock_blockTuples)
  qed
qed


text \<open>The scan of the rows that the encoder writes: every row is one completed tuple,
  whatever its strings hold.\<close>

lemma extend_extend [simp]: "extend (extend t a) b = extend t (a @ b)"
  by (cases t) (simp_all add: extend_def)

lemma extend_None [simp]: "extend None a = None"
  by (simp add: extend_def)

lemma extend_Some [simp]: "extend (Some b) a = Some (b @ a)"
  by (simp add: extend_def)

lemma blockTuples_string:
  "rest = [] \<or> hd rest \<noteq> quote \<Longrightarrow>
   blockTuples (doubleQuotes s @ quote # rest) True d t =
   blockTuples rest False d (extend t (doubleQuotes s @ [quote]))"
proof (induction s arbitrary: t)
  case Nil
  then show ?case by (simp add: blockTuples_steps)
next
  case (Cons x xs)
  then show ?case by (simp add: blockTuples_steps)
qed

lemma blockTuples_sqlEscape:
  "rest = [] \<or> hd rest \<noteq> quote \<Longrightarrow>
   blockTuples (sqlEscape (Some s) @ rest) False d t =
   blockTuples rest False d (extend t (sqlEscape (Some s)))"
  by (simp add: sqlEscape_def blockTuples_steps blockTuples_string)

lemma blockTuples_plainText:
  "plainText p \<Longrightarrow> blockTuples (p @ rest) False d t = blockTuples rest False d (extend t p)"
proof (induction p arbitrary: t)
  case Nil
  show ?case by (cases t) simp_all
next
  case (Cons c cs)
  then show ?case by (simp add: plainText_def blockTuples_steps)
qed

lemma set_digitsOf: "set (digitsOf n) \<subseteq> set ''0123456789''"
proof (induction n rule: digitsOf.induct)
  case (1 n)
  have d: "\<And>k. digitChar k \<in> set ''0123456789''"
  proof -
    fix k :: int
    have "nat (k mod 10) < 10" by simp
    then have "''0123456789'' ! nat (k mod 10) \<in> set ''0123456789''"
      by (intro nth_mem) simp
    then show "digitChar k \<in> set ''0123456789''" by (simp only: digitChar_def)
  qed
  show ?case
  proof (cases "n < 10")
    case True
    then show ?thesis using d [of n] by (subst digitsOf.simps) simp
  next
    case False
    with 1 d [of "n mod 10"] show ?thesis by (subst digitsOf.simps) simp
  qed
qed

lemma list_all_digitsOf:
  assumes "\<And>c. c \<in> set ''0123456789'' \<Longrightarrow> P c"
  shows "list_all P (digitsOf n)"
  using set_digitsOf [of n] assms by (auto simp: list_all_iff simp del: set_simps)

lemma list_all_take: "list_all P xs \<Longrightarrow> list_all P (take k xs)"
  by (auto simp: list_all_iff dest: in_set_takeD)

lemma list_all_drop: "list_all P xs \<Longrightarrow> list_all P (drop k xs)"
  by (auto simp: list_all_iff dest: in_set_dropD)

lemma list_all_positiveToString:
  assumes "\<And>c. c \<in> set ''0123456789.e+-'' \<Longrightarrow> P c"
  shows "list_all P (positiveToString s e)"
proof -
  have d: "list_all P (digitsOf n)" for n
    by (rule list_all_digitsOf) (rule assms, auto)
  have p: "P (CHR ''0'')" "P (CHR ''.'')" "P (CHR ''e'')" "P (CHR ''+'')" "P (CHR ''-'')"
    by (rule assms, simp)+
  show ?thesis
    unfolding positiveToString_def Let_def
    by (simp add: d p list_all_take list_all_drop list_all_iff [of P "replicate _ _"])
qed

lemma list_all_numberToString:
  assumes "\<And>c. c \<in> set ''0123456789.e+-NaInfity'' \<Longrightarrow> P c"
  shows "list_all P (numberToString x)"
proof (cases x)
  case (Fin m e)
  have "list_all P (positiveToString s e')" for s e'
    by (rule list_all_positiveToString) (rule assms, auto)
  moreover have "P (CHR ''0'')" "P (CHR ''-'')" by (rule assms, simp)+
  ultimately show ?thesis using Fin
    by (simp add: numberToString_def split: prod.splits)
qed (simp_all add: numberToString_def assms)

lemma plainText_numberToString: "plainText (numberToString x)"
proof -
  have "list_all (\<lambda>c. c \<noteq> quote \<and> c \<noteq> CHR ''('' \<and> c \<noteq> CHR '')'' \<and> c \<noteq> CHR '';'') (numberToString x)"
    by (rule list_all_numberToString) auto
  then show ?thesis by (simp add: plainText_def list_all_iff)
qed

lemma plainText_simps [simp]: "plainText '', ''" "plainText ''NULL''" "plainText '',\<newline>''" "plainText ''\<newline>''"
  by (simp_all add: plainText_def)

lemma blockTuples_rowValues:
  "blockTuples (rowValues sid tx @ CHR '')'' # rest) False d (Some b) =
   blockTuples (CHR '')'' # rest) False d (Some (b @ rowValues sid tx))"
proof -
  have n: "\<And>r t. blockTuples (numberToString (amount tx) @ r) False d t =
                 blockTuples r False d (extend t (numberToString (amount tx)))"
    by (rule blockTuples_plainText) (rule plainText_numberToString)
  have c: "\<And>r t. blockTuples ('', '' @ r) False d t = blockTuples r False d (extend t '', '')"
    by (rule blockTuples_plainText) simp
  have e: "\<And>s r t. blockTuples (sqlEscape (Some s) @ '', '' @ r) False d t =
                 blockTuples ('', '' @ r) False d (extend t (sqlEscape (Some s)))"
    by (rule blockTuples_sqlEscape) simp
  have l: "\<And>t. blockTuples (sqlEscape (category tx) @ CHR '')'' # rest) False d t =
                 blockTuples (CHR '')'' # rest) False d (extend t (sqlEscape (category tx)))"
  proof (cases "category tx")
    case None
    show "\<And>t. ?thesis t" unfolding None sqlEscape_def option.case
      by (rule blockTuples_plainText) simp
  next
    case (Some a)
    show "\<And>t. ?thesis t" unfolding Some
      by (rule blockTuples_sqlEscape) simp
  qed
  show ?thesis
    unfolding rowValues_def append_assoc
    by (simp only: e c n l extend_extend extend_Some append_assoc)
qed

lemma blockTuples_transactionRow:
  "blockTuples (transactionRow sid tx @ rest) False 0 None =
   rowValues sid tx # blockTuples rest False 0 None"
  unfolding transactionRow_def
  by (simp add: blockTuples_steps blockTuples_rowValues)

lemma blockTuples_rows:
  "blockTuples (join '',\<newline>'' (map (transactionRow sid) txs) @ CHR '';'' # rest) False 0 None =
   map (rowValues sid) txs"
proof (induction txs)
  case Nil
  show ?case by (simp add: blockTuples_steps)
next
  case (Cons tx txs)
  show ?case
  proof (cases txs)
    case Nil
    show ?thesis unfolding Nil by (simp add: blockTuples_transactionRow blockTuples_steps)
  next
    case (Cons ty tys)
    have sep: "\<And>r. blockTuples ('',\<newline>'' @ r) False 0 None = blockTuples r False 0 None"
      using blockTuples_plainText [of "'',\<newline>''" _ 0 None] by simp
    from Cons.IH show ?thesis unfolding Cons
      by (simp only: list.map join.simps append_assoc blockTuples_transactionRow sep)
  qed
qed

section \<open>The search for the markers in an encoded document\<close>

text \<open>A text in which no occurrence of a keyword starts is passed over by the search for
  the pattern that begins with the keyword.\<close>

lemma clash_matchLiteral: "clash k s \<Longrightarrow> matchLiteral k (s @ rest) = None"
  by (induction k s rule: clash.induct) auto

lemma clash_append: "clash k s \<Longrightarrow> clash k (s @ r)"
  by (induction k s rule: clash.induct) auto

lemma noStart_append: "noStart k a \<Longrightarrow> noStart k b \<Longrightarrow> noStart k (a @ b)"
proof (induction a)
  case Nil
  then show ?case by simp
next
  case (Cons c cs)
  from Cons.prems have "clash k (c # cs)" by simp
  from clash_append [OF this, of b] Cons show ?case by simp
qed

lemma noStart_insertRegexExec:
  "noStart ''INSERT INTO transactions'' p \<Longrightarrow> insertRegexExec (p @ rest) = insertRegexExec rest"
proof (induction p)
  case Nil
  show ?case by simp
next
  case (Cons c cs)
  then have "matchLiteral ''INSERT INTO transactions'' ((c # cs) @ rest) = None"
    by (intro clash_matchLiteral) simp
  then have "matchInsert (c # cs @ rest) = None" by (simp add: matchInsert_def)
  with Cons show ?case by simp
qed

lemma noStart_stmtMatch:
  "noStart ''INSERT INTO statements'' p \<Longrightarrow> stmtMatch (p @ rest) = stmtMatch rest"
proof (induction p)
  case Nil
  show ?case by simp
next
  case (Cons c cs)
  then have "matchLiteral ''INSERT INTO statements'' ((c # cs) @ rest) = None"
    by (intro clash_matchLiteral) simp
  then have "matchStatements (c # cs @ rest) = None" by (simp add: matchStatements_def)
  with Cons show ?case by simp
qed

lemma matchLiteral_None_clash:
  "matchLiteral k s = None \<Longrightarrow> canonicalize d \<notin> canonicalize ` set k \<Longrightarrow> clash k (s @ [d])"
  by (induction k s rule: matchLiteral.induct) (auto split: if_splits)

lemma noStart_field:
  "\<not> containsCI k f \<Longrightarrow> canonicalize d \<notin> canonicalize ` set k \<Longrightarrow> noStart k (f @ [d])"
proof (induction f)
  case Nil
  then show ?case by (cases k) auto
next
  case (Cons c cs)
  then show ?case by (auto intro: matchLiteral_None_clash [of k "c # cs" d, simplified])
qed

lemma noStart_first:
  "k \<noteq> [] \<Longrightarrow> list_all (\<lambda>c. canonicalize c \<noteq> canonicalize (hd k)) s \<Longrightarrow> noStart k s"
  by (induction s) (auto simp: neq_Nil_conv)

text \<open>The fixed parts of the two patterns, on texts that begin with what they match.\<close>

lemma doubleQuotes_id: "quote \<notin> set s \<Longrightarrow> doubleQuotes s = s"
  by (induction s) auto

lemma matchLiteral_append:
  "map canonicalize a = map canonicalize k \<Longrightarrow> matchLiteral k (a @ rest) = Some rest"
proof (induction k arbitrary: a)
  case Nil
  then show ?case by simp
next
  case (Cons p ps)
  then obtain c cs where a: "a = c # cs" by (cases a) auto
  with Cons show ?case by simp
qed

lemma columnList_append:
  "cols \<noteq> [] \<Longrightarrow> CHR '')'' \<notin> set cols \<Longrightarrow>
   columnList (CHR ''('' # cols @ CHR '')'' # rest) = Some rest"
proof -
  assume a: "cols \<noteq> []" "CHR '')'' \<notin> set cols"
  then have t: "takeWhile (\<lambda>x. x \<noteq> CHR '')'') (cols @ CHR '')'' # rest) = cols"
    by (subst takeWhile_append2) auto
  from a have d: "dropWhile (\<lambda>x. x \<noteq> CHR '')'') (cols @ CHR '')'' # rest) = CHR '')'' # rest"
    by (subst dropWhile_append2) auto
  from a show ?thesis by (simp add: columnList_def t d)
qed

lemma untilClose_closeFree:
  "closeFree p \<Longrightarrow> untilClose (p @ CHR '')'' # CHR '';'' # r) = Some p"
proof (induction p)
  case Nil
  show ?case by simp
next
  case (Cons c cs)
  from Cons.prems have nh: "\<not> hasClose (c # cs)" and nl: "last (c # cs) \<noteq> CHR '')''"
    by (simp_all add: closeFree_def)
  have cf: "closeFree cs"
  proof (cases cs)
    case Nil
    then show ?thesis by (simp add: closeFree_def)
  next
    case (Cons b bs)
    with nh nl show ?thesis by (simp add: closeFree_def)
  qed
  have "\<not> (c = CHR '')'' \<and> hd (cs @ CHR '')'' # CHR '';'' # r) = CHR '';'')"
  proof (cases cs)
    case Nil
    with nl show ?thesis by simp
  next
    case (Cons b bs)
    with nh show ?thesis by auto
  qed
  with Cons.IH [OF cf] show ?case by simp
qed

lemma hasClose_append:
  "hasClose (a @ b) \<longleftrightarrow> hasClose a \<or> hasClose b \<or> (a \<noteq> [] \<and> b \<noteq> [] \<and> last a = CHR '')'' \<and> hd b = CHR '';'')"
  apply (induction a rule: hasClose.induct)
  subgoal by auto
  subgoal by simp
  subgoal for v by (cases b) auto
  done

lemma closeFree_append: "closeFree a \<Longrightarrow> closeFree b \<Longrightarrow> closeFree (a @ b)"
  by (cases "b = []") (auto simp: closeFree_def hasClose_append)

text \<open>No keyword starts inside the fixed texts of the encoder, inside a time stamp or a
  number, or inside a quoted field that does not hold the keyword.\<close>

lemma noStart_constants_transactions:
  "noStart ''INSERT INTO transactions'' ''-- Smart Bank Statement Backup\<newline>-- Created at: ''"
  "noStart ''INSERT INTO transactions'' ''\<newline>-- Bank: ''"
  "noStart ''INSERT INTO transactions'' ''\<newline>\<newline>''"
  "noStart ''INSERT INTO transactions'' createTables"
  "noStart ''INSERT INTO transactions'' ''INSERT INTO statements (id, file_name, bank_name, account_holder, period, saved_at) VALUES (''"
  "noStart ''INSERT INTO transactions'' ''\<newline>    ''"
  "noStart ''INSERT INTO transactions'' '',\<newline>    ''"
  "noStart ''INSERT INTO transactions'' '',\<newline>''"
  "noStart ''INSERT INTO transactions'' ''\<newline>''"
  "noStart ''INSERT INTO transactions'' '');\<newline>\<newline>''"
  "noStart ''INSERT INTO transactions'' ''NULL''"
  "noStart ''INSERT INTO transactions'' ''Unknown''"
  "noStart ''INSERT INTO transactions'' [quote]"
  "noStart ''INSERT INTO transactions'' '', ''"
  "noStart ''INSERT INTO transactions'' ''(''"
  "noStart ''INSERT INTO transactions'' '')''"
  "noStart ''INSERT INTO transactions'' '';\<newline>''"
  by code_simp+

lemma noStart_constants_statements:
  "noStart ''INSERT INTO statements'' ''-- Smart Bank Statement Backup\<newline>-- Created at: ''"
  "noStart ''INSERT INTO statements'' ''\<newline>-- Bank: ''"
  "noStart ''INSERT INTO statements'' ''\<newline>\<newline>''"
  "noStart ''INSERT INTO statements'' createTables"
  "noStart ''INSERT INTO statements'' ''Unknown''"
  by code_simp+

lemma delimiters_not_in_keywords:
  "canonicalize quote \<notin> canonicalize ` set ''INSERT INTO transactions''"
  "canonicalize (CHR ''\<newline>'') \<notin> canonicalize ` set ''INSERT INTO transactions''"
  "canonicalize (CHR ''\<newline>'') \<notin> canonicalize ` set ''INSERT INTO statements''"
  by code_simp+

lemma canonicalize_timestamp_char:
  "c \<in> set ''0123456789-+:.TZ'' \<Longrightarrow> canonicalize c \<noteq> CHR ''I''"
  by (auto simp: canonicalize_other)

lemma noStart_timestamp:
  assumes "isoTimestamp ts"
  shows "noStart ''INSERT INTO transactions'' ts" and "noStart ''INSERT INTO statements'' ts"
proof -
  from assms have "list_all (\<lambda>c. canonicalize c \<noteq> CHR ''I'') ts"
    unfolding isoTimestamp_def list_all_iff using canonicalize_timestamp_char by blast
  moreover have "canonicalize (CHR ''I'') = CHR ''I''" by (simp add: canonicalize_other)
  ultimately show "noStart ''INSERT INTO transactions'' ts" and "noStart ''INSERT INTO statements'' ts"
    by (auto intro!: noStart_first)
qed

lemma noStart_number:
  "noStart ''INSERT INTO transactions'' (numberToString x)"
proof (cases x)
  case (Fin m e)
  have "list_all (\<lambda>c. canonicalize c \<noteq> CHR ''I'') (positiveToString s e')" for s e'
    by (rule list_all_positiveToString) (auto simp: canonicalize_def)
  moreover have "canonicalize (CHR ''I'') = CHR ''I''" by (simp add: canonicalize_other)
  ultimately have p: "noStart ''INSERT INTO transactions'' (positiveToString s e')" for s e'
    by (auto intro!: noStart_first)
  have z: "noStart ''INSERT INTO transactions'' ''0''" "noStart ''INSERT INTO transactions'' ''-''" by code_simp+
  from Fin p z show ?thesis
    by (auto simp: numberToString_def split: prod.splits intro: noStart_append [of _ "''-''", simplified])
next
  case NaN
  show ?thesis unfolding NaN numberToString_def number.case by code_simp
next
  case PosInfinity
  show ?thesis unfolding PosInfinity numberToString_def number.case by code_simp
next
  case NegInfinity
  show ?thesis unfolding NegInfinity numberToString_def number.case by code_simp
qed

lemma noStart_sqlEscape_Some:
  assumes "quote \<notin> set s" and "\<not> containsCI ''INSERT INTO transactions'' s"
  shows "noStart ''INSERT INTO transactions'' (sqlEscape (Some s))"
proof -
  from assms(2) have "noStart ''INSERT INTO transactions'' (s @ [quote])"
    by (rule noStart_field) (rule delimiters_not_in_keywords)
  with noStart_constants_transactions(13) have "noStart ''INSERT INTO transactions'' ([quote] @ s @ [quote])"
    by (rule noStart_append)
  with assms(1) show ?thesis by (simp add: sqlEscape_def doubleQuotes_id)
qed

lemma noStart_sqlEscape:
  assumes "\<forall>s \<in> set (present x). quote \<notin> set s \<and> \<not> containsCI ''INSERT INTO transactions'' s"
  shows "noStart ''INSERT INTO transactions'' (sqlEscape x)"
proof (cases x)
  case None
  then show ?thesis using noStart_constants_transactions(11) by (simp add: sqlEscape_def)
next
  case (Some s)
  with assms show ?thesis by (simp add: present_def noStart_sqlEscape_Some)
qed

lemma plainText_no_quote: "plainText p \<Longrightarrow> quote \<notin> set p"
  by (auto simp: plainText_def)

lemma noStart_containsCI: "noStart k s \<Longrightarrow> k \<noteq> [] \<Longrightarrow> \<not> containsCI k s"
proof (induction s)
  case Nil
  then show ?case by (cases k) auto
next
  case (Cons c cs)
  from Cons.prems have "clash k (c # cs)" by simp
  from clash_matchLiteral [OF this, of "[]"] Cons show ?case by simp
qed

lemma stmtId_safe:
  assumes "\<forall>s \<in> set (present (id' data)). quote \<notin> set s \<and> \<not> containsCI ''INSERT INTO transactions'' s"
  shows "quote \<notin> set (stmtId idNow data) \<and> \<not> containsCI ''INSERT INTO transactions'' (stmtId idNow data)"
proof -
  have "quote \<notin> set (numberToString (ofInt idNow))"
    by (rule plainText_no_quote) (rule plainText_numberToString)
  moreover have "\<not> containsCI ''INSERT INTO transactions'' (numberToString (ofInt idNow))"
    by (rule noStart_containsCI) (rule noStart_number, simp)
  ultimately show ?thesis using assms
    by (auto simp: stmtId_def present_def split: option.splits)
qed

text \<open>The metadata tuple of the encoder holds no closing parenthesis followed by a semicolon
  when its fields hold none, so the lazy capture of the metadata pattern ends at the end of
  the statement.\<close>

lemma plainText_closeFree: "plainText p \<Longrightarrow> closeFree p"
proof -
  assume a: "plainText p"
  then have n: "CHR '')'' \<notin> set p" by (auto simp: plainText_def)
  have "\<not> hasClose q" if "CHR '')'' \<notin> set q" for q
    using that by (induction q rule: hasClose.induct) auto
  with n have "\<not> hasClose p" by blast
  moreover from n have "p = [] \<or> last p \<noteq> CHR '')''" by (cases "p = []") (auto dest: last_in_set)
  ultimately show ?thesis by (simp add: closeFree_def)
qed

lemma closeFree_sqlEscape:
  assumes "\<forall>s \<in> set (present x). quote \<notin> set s \<and> \<not> hasClose s"
  shows "closeFree (sqlEscape x)"
proof (cases x)
  case None
  show ?thesis unfolding None sqlEscape_def option.case
    by (rule plainText_closeFree) (simp add: plainText_def)
next
  case (Some s)
  with assms have q: "quote \<notin> set s" and h: "\<not> hasClose s" by (simp_all add: present_def)
  have "\<not> hasClose ([quote] @ s @ [quote])"
    using h by (simp only: hasClose_append) auto
  then have "closeFree ([quote] @ s @ [quote])" by (simp add: closeFree_def)
  with q Some show ?thesis by (simp add: sqlEscape_def doubleQuotes_id)
qed

lemma stmtId_closeFree:
  assumes "\<forall>s \<in> set (present (id' data)). quote \<notin> set s \<and> \<not> hasClose s"
  shows "closeFree (sqlEscape (Some (stmtId idNow data)))"
proof -
  have p: "plainText (numberToString (ofInt idNow))" by (rule plainText_numberToString)
  then have "quote \<notin> set (numberToString (ofInt idNow))" by (rule plainText_no_quote)
  moreover from p have "\<not> hasClose (numberToString (ofInt idNow))"
    using plainText_closeFree closeFree_def by blast
  ultimately have "\<forall>s \<in> set (present (Some (stmtId idNow data))). quote \<notin> set s \<and> \<not> hasClose s"
    using assms by (auto simp: stmtId_def present_def split: option.splits)
  then show ?thesis by (rule closeFree_sqlEscape)
qed

lemma closeFree_constants:
  "closeFree ''    ''" "closeFree '',\<newline>''" "closeFree ''\<newline>''"
  by (simp_all add: closeFree_def)

lemma statementValues_tail:
  "statementValues idNow savedNow data = CHR ''\<newline>'' # statementValuesTail idNow savedNow data"
  by (simp add: statementValues_def statementValuesTail_def)

lemma closeFree_statementValues:
  assumes "\<forall>s \<in> set (metadataTexts data). quote \<notin> set s \<and> \<not> hasClose s"
  shows "closeFree (statementValuesTail idNow savedNow data)"
proof -
  from assms have f:
    "closeFree (sqlEscape (Some (stmtId idNow data)))"
    "closeFree (sqlEscape (fileName data))"
    "closeFree (sqlEscape (bankName data))"
    "closeFree (sqlEscape (accountHolder data))"
    "closeFree (sqlEscape (period data))"
    by (auto simp: metadataTexts_def intro!: closeFree_sqlEscape stmtId_closeFree)
  have n: "closeFree (numberToString (ofInt savedNow))"
    by (rule plainText_closeFree) (rule plainText_numberToString)
  show ?thesis
    unfolding statementValuesTail_def
    by (intro closeFree_append f n closeFree_constants)
qed

lemma insertStatement_shape:
  "insertStatement idNow savedNow data @ rest =
   ''INSERT INTO statements'' @ CHR '' '' #
   CHR ''('' # ''id, file_name, bank_name, account_holder, period, saved_at'' @ CHR '')'' #
   CHR '' '' # ''VALUES'' @ CHR '' '' # CHR ''('' # CHR ''\<newline>'' #
   statementValuesTail idNow savedNow data @ CHR '')'' # CHR '';'' # (''\<newline>\<newline>'' @ rest)"
  by (simp add: insertStatement_def statementValues_tail)

lemma isSpace_simps [simp]:
  "isSpace (CHR '' '')" "isSpace (CHR ''\<newline>'')" "\<not> isSpace (CHR ''('')" "\<not> isSpace (CHR ''V'')"
  by (simp_all add: isSpace_def)

lemma matchStatements_insertStatement:
  assumes "closeFree (statementValuesTail idNow savedNow data)"
  shows "matchStatements (insertStatement idNow savedNow data @ rest) =
         Some (statementValues idNow savedNow data)"
proof -
  have l1: "\<And>r. matchLiteral ''INSERT INTO statements'' (''INSERT INTO statements'' @ r) = Some r"
    by (rule matchLiteral_append) simp
  have l2: "\<And>r. matchLiteral ''VALUES'' (''VALUES'' @ r) = Some r"
    by (rule matchLiteral_append) simp
  have c: "\<And>r. columnList (CHR ''('' # ''id, file_name, bank_name, account_holder, period, saved_at'' @ CHR '')'' # r) = Some r"
    by (rule columnList_append) simp_all
  have sp: "\<And>r. dropWhile isSpace (''VALUES'' @ r) = ''VALUES'' @ r"
    by simp
  show ?thesis
    unfolding insertStatement_shape matchStatements_def
    by (simp only: l1 l2 c sp option.case dropWhile.simps isSpace_simps if_True if_False list.case
        captureValues_def untilClose_closeFree [OF assms] option.map statementValues_tail)
      simp
qed

lemma headerComment_shape:
  "headerComment ts data =
   ''-- Smart Bank Statement Backup\<newline>-- Created at: '' @ ts @ ''\<newline>-- Bank: '' @
   (bankLabel data @ ''\<newline>'') @ ''\<newline>''"
  by (simp add: headerComment_def)

lemma noStart_Unknown:
  "noStart ''INSERT INTO statements'' (''Unknown'' @ ''\<newline>'')" "noStart ''INSERT INTO transactions'' (''Unknown'' @ ''\<newline>'')"
  by code_simp+

lemma noStart_bankLabel:
  assumes "\<forall>b \<in> set (present (bankName data)). \<not> containsCI k b"
    and "canonicalize (CHR ''\<newline>'') \<notin> canonicalize ` set k"
    and "noStart k (''Unknown'' @ ''\<newline>'')"
  shows "noStart k (bankLabel data @ ''\<newline>'')"
proof (cases "bankName data")
  case None
  then show ?thesis using assms(3) by (simp add: bankLabel_def)
next
  case (Some b)
  show ?thesis
  proof (cases "b = []")
    case True
    with Some show ?thesis using assms(3) by (simp add: bankLabel_def)
  next
    case False
    from assms(1) Some have "\<not> containsCI k b" by (simp add: present_def)
    then have "noStart k (b @ [CHR ''\<newline>''])"
      by (rule noStart_field) (rule assms(2))
    with Some False show ?thesis by (simp add: bankLabel_def)
  qed
qed

lemma noStart_header_statements:
  assumes "isoTimestamp ts" and "\<forall>b \<in> set (present (bankName data)). \<not> containsCI ''INSERT INTO statements'' b"
  shows "noStart ''INSERT INTO statements'' (headerComment ts data @ createTables)"
proof -
  have n: "noStart ''INSERT INTO statements'' ''\<newline>''" by code_simp
  note b = noStart_bankLabel [OF assms(2) delimiters_not_in_keywords(3) noStart_Unknown(1)]
  show ?thesis
    unfolding headerComment_shape
    by (intro noStart_append noStart_constants_statements noStart_timestamp(2) [OF assms(1)] b n)
qed

lemma noStart_header_transactions:
  assumes "isoTimestamp ts" and "\<forall>b \<in> set (present (bankName data)). \<not> containsCI ''INSERT INTO transactions'' b"
  shows "noStart ''INSERT INTO transactions'' (headerComment ts data @ createTables)"
proof -
  note b = noStart_bankLabel [OF assms(2) delimiters_not_in_keywords(2) noStart_Unknown(2)]
  show ?thesis
    unfolding headerComment_shape
    by (intro noStart_append noStart_constants_transactions noStart_timestamp(1) [OF assms(1)] b)
qed

lemma stmtMatch_generateSQL:
  assumes "isoTimestamp ts"
    and "\<forall>b \<in> set (present (bankName data)). \<not> containsCI ''INSERT INTO statements'' b"
    and "\<forall>s \<in> set (metadataTexts data). quote \<notin> set s \<and> \<not> hasClose s"
  shows "stmtMatch (generateSQL ts idNow savedNow data) = Some (statementValues idNow savedNow data)"
proof -
  have "stmtMatch (generateSQL ts idNow savedNow data) =
        stmtMatch (insertStatement idNow savedNow data @ insertTransactions idNow data)"
    using noStart_stmtMatch [OF noStart_header_statements [OF assms(1,2)]]
    by (simp add: generateSQL_def)
  also have "\<dots> = Some (statementValues idNow savedNow data)"
  proof -
    obtain c cs where e: "insertStatement idNow savedNow data @ insertTransactions idNow data = c # cs"
      by (simp add: insertStatement_def)
    from matchStatements_insertStatement [OF closeFree_statementValues [OF assms(3)]]
    have "matchStatements (c # cs) = Some (statementValues idNow savedNow data)"
      unfolding e [symmetric] .
    then show ?thesis unfolding e by simp
  qed
  finally show ?thesis .
qed

text \<open>The marker of the transaction insert statement is found once in an encoded document,
  at that statement, when no field holds its keyword.\<close>

lemma noStart_more_constants_transactions:
  "noStart ''INSERT INTO transactions'' ''    ''"
  "\<not> containsCI ''INSERT INTO transactions'' ''CREDIT''" "\<not> containsCI ''INSERT INTO transactions'' ''DEBIT''"
  by code_simp+

lemma noStart_join:
  "(\<forall>x \<in> set xs. noStart k x) \<Longrightarrow> noStart k sep \<Longrightarrow> noStart k (join sep xs)"
  by (induction sep xs rule: join.induct) (auto intro: noStart_append)

lemma noStart_statementValues:
  assumes "\<forall>s \<in> set (metadataTexts data). quote \<notin> set s \<and> \<not> containsCI ''INSERT INTO transactions'' s"
  shows "noStart ''INSERT INTO transactions'' (statementValues idNow savedNow data)"
proof -
  from assms have i: "\<forall>s \<in> set (present (id' data)). quote \<notin> set s \<and> \<not> containsCI ''INSERT INTO transactions'' s"
    by (simp add: metadataTexts_def)
  from stmtId_safe [OF i] have f0: "noStart ''INSERT INTO transactions'' (sqlEscape (Some (stmtId idNow data)))"
    by (simp add: noStart_sqlEscape_Some)
  from assms have f:
    "noStart ''INSERT INTO transactions'' (sqlEscape (fileName data))"
    "noStart ''INSERT INTO transactions'' (sqlEscape (bankName data))"
    "noStart ''INSERT INTO transactions'' (sqlEscape (accountHolder data))"
    "noStart ''INSERT INTO transactions'' (sqlEscape (period data))"
    by (auto simp: metadataTexts_def intro!: noStart_sqlEscape)
  show ?thesis
    unfolding statementValues_def
    by (intro noStart_append f0 f noStart_number noStart_constants_transactions noStart_more_constants_transactions)
qed

lemma noStart_transactionRow:
  assumes "quote \<notin> set sid" and "\<not> containsCI ''INSERT INTO transactions'' sid"
    and "\<forall>s \<in> set (transactionTexts tx). quote \<notin> set s \<and> \<not> containsCI ''INSERT INTO transactions'' s"
  shows "noStart ''INSERT INTO transactions'' (transactionRow sid tx)"
proof -
  from assms(3) have f:
    "noStart ''INSERT INTO transactions'' (sqlEscape (Some (date tx)))"
    "noStart ''INSERT INTO transactions'' (sqlEscape (Some (description tx)))"
    "noStart ''INSERT INTO transactions'' (sqlEscape (Some (transaction_code tx)))"
    "noStart ''INSERT INTO transactions'' (sqlEscape (Some (partner_name tx)))"
    "noStart ''INSERT INTO transactions'' (sqlEscape (Some (partner_account tx)))"
    by (auto simp: transactionTexts_def intro!: noStart_sqlEscape_Some)
  from assms(3) have fc: "noStart ''INSERT INTO transactions'' (sqlEscape (category tx))"
    by (auto simp: transactionTexts_def intro!: noStart_sqlEscape)
  have t: "noStart ''INSERT INTO transactions'' (sqlEscape (Some (typeName (type tx))))"
  proof (cases "type tx")
    case CREDIT
    have "noStart ''INSERT INTO transactions'' (sqlEscape (Some ''CREDIT''))"
      by (rule noStart_sqlEscape_Some) (simp, rule noStart_more_constants_transactions(2))
    with CREDIT show ?thesis by simp
  next
    case DEBIT
    have "noStart ''INSERT INTO transactions'' (sqlEscape (Some ''DEBIT''))"
      by (rule noStart_sqlEscape_Some) (simp, rule noStart_more_constants_transactions(3))
    with DEBIT show ?thesis by simp
  qed
  have s: "noStart ''INSERT INTO transactions'' (sqlEscape (Some sid))"
    using assms(1,2) by (rule noStart_sqlEscape_Some)
  show ?thesis
    unfolding transactionRow_def rowValues_def
    by (intro noStart_append f fc t s noStart_number noStart_constants_transactions)
qed

lemma insertTransactions_shape:
  "txs \<noteq> [] \<Longrightarrow> transactions data = txs \<Longrightarrow>
   insertTransactions idNow data =
   ''INSERT INTO transactions'' @ CHR '' '' #
   CHR ''('' # ''statement_id, date, amount, description, transaction_code, partner_name, partner_account, type, category'' @ CHR '')'' #
   CHR '' '' # ''VALUES'' @
   (''\<newline>'' @ join '',\<newline>'' (map (transactionRow (stmtId idNow data)) txs) @ '';\<newline>'')"
  by (simp add: insertTransactions_def)

lemma matchInsert_header:
  "matchInsert (''INSERT INTO transactions'' @ CHR '' '' #
     CHR ''('' # ''statement_id, date, amount, description, transaction_code, partner_name, partner_account, type, category'' @ CHR '')'' #
     CHR '' '' # ''VALUES'' @ rest) = Some rest"
proof -
  have l1: "\<And>r. matchLiteral ''INSERT INTO transactions'' (''INSERT INTO transactions'' @ r) = Some r"
    by (rule matchLiteral_append) simp
  have l2: "\<And>r. matchLiteral ''VALUES'' (''VALUES'' @ r) = Some r"
    by (rule matchLiteral_append) simp
  have c: "\<And>r. columnList (CHR ''('' # ''statement_id, date, amount, description, transaction_code, partner_name, partner_account, type, category'' @ CHR '')'' # r) = Some r"
    by (rule columnList_append) simp_all
  have sp: "\<And>r. dropWhile isSpace (''VALUES'' @ r) = ''VALUES'' @ r"
    by simp
  show ?thesis
    unfolding matchInsert_def
    by (simp only: l1 l2 c sp option.case dropWhile.simps isSpace_simps if_True if_False)
qed

lemma scanAll_None: "insertRegexExec s = None \<Longrightarrow> scanAll s = []"
  by (subst scanAll.simps) simp

lemma scanAll_Some:
  "insertRegexExec s = Some r \<Longrightarrow> scanAll s = scanBlock r False 0 None @ scanAll r"
  by (subst scanAll.simps) simp

lemma insertRegexExec_generateSQL:
  assumes ts: "isoTimestamp ts"
    and meta: "\<forall>s \<in> set (metadataTexts data). quote \<notin> set s \<and> \<not> containsCI ''INSERT INTO transactions'' s"
  shows "insertRegexExec (generateSQL ts idNow savedNow data) =
         insertRegexExec (insertTransactions idNow data)"
proof -
  from meta have bank: "\<forall>b \<in> set (present (bankName data)). \<not> containsCI ''INSERT INTO transactions'' b"
    by (simp add: metadataTexts_def)
  have "noStart ''INSERT INTO transactions'' (insertStatement idNow savedNow data)"
    unfolding insertStatement_def
    by (intro noStart_append noStart_constants_transactions noStart_statementValues [OF meta])
  with noStart_header_transactions [OF ts bank]
  have pre: "noStart ''INSERT INTO transactions'' (headerComment ts data @ createTables @ insertStatement idNow savedNow data)"
    using noStart_append by fastforce
  show ?thesis
    using noStart_insertRegexExec [OF pre, of "insertTransactions idNow data"]
    by (simp add: generateSQL_def)
qed

lemma scanAll_cong: "insertRegexExec s = insertRegexExec s' \<Longrightarrow> scanAll s = scanAll s'"
  by (subst scanAll.simps, subst (2) scanAll.simps) simp

lemma completedTuples_None: "insertRegexExec s = None \<Longrightarrow> completedTuples s = []"
  by (subst completedTuples.simps) simp

lemma completedTuples_Some:
  "insertRegexExec s = Some r \<Longrightarrow>
   completedTuples s = blockTuples r False 0 None @ completedTuples r"
  by (subst completedTuples.simps) simp

lemma completedTuples_cong:
  "insertRegexExec s = insertRegexExec s' \<Longrightarrow> completedTuples s = completedTuples s'"
  by (subst completedTuples.simps, subst (2) completedTuples.simps) simp

lemma completedTuples_generateSQL_append:
  assumes ts: "isoTimestamp ts"
    and texts: "\<forall>s \<in> set (recordTexts data). quote \<notin> set s \<and> \<not> containsCI ''INSERT INTO transactions'' s"
  shows "completedTuples (generateSQL ts idNow savedNow data @ rest) =
         map (rowValues (stmtId idNow data)) (transactions data) @ completedTuples rest"
proof -
  let ?sid = "stmtId idNow data"
  from texts have meta: "\<forall>s \<in> set (metadataTexts data). quote \<notin> set s \<and> \<not> containsCI ''INSERT INTO transactions'' s"
    by (simp add: recordTexts_def)
  from texts have txs: "\<forall>tx \<in> set (transactions data).
      \<forall>s \<in> set (transactionTexts tx). quote \<notin> set s \<and> \<not> containsCI ''INSERT INTO transactions'' s"
    by (auto simp: recordTexts_def)
  from meta have bank: "\<forall>b \<in> set (present (bankName data)). \<not> containsCI ''INSERT INTO transactions'' b"
    by (simp add: metadataTexts_def)
  from meta have "\<forall>s \<in> set (present (id' data)). quote \<notin> set s \<and> \<not> containsCI ''INSERT INTO transactions'' s"
    by (simp add: metadataTexts_def)
  from stmtId_safe [OF this] have sid: "quote \<notin> set ?sid" "\<not> containsCI ''INSERT INTO transactions'' ?sid" by simp_all
  have pre: "noStart ''INSERT INTO transactions'' (headerComment ts data @ createTables @ insertStatement idNow savedNow data)"
  proof -
    have "noStart ''INSERT INTO transactions'' (insertStatement idNow savedNow data)"
      unfolding insertStatement_def
      by (intro noStart_append noStart_constants_transactions noStart_statementValues [OF meta])
    with noStart_header_transactions [OF ts bank] show ?thesis
      using noStart_append by fastforce
  qed
  have skip: "insertRegexExec (generateSQL ts idNow savedNow data @ rest) =
              insertRegexExec (insertTransactions idNow data @ rest)"
    using noStart_insertRegexExec [OF pre, of "insertTransactions idNow data @ rest"]
    by (simp add: generateSQL_def)
  show ?thesis
  proof (cases "transactions data = []")
    case True
    then have "insertTransactions idNow data = []" by (simp add: insertTransactions_def)
    with skip have "insertRegexExec (generateSQL ts idNow savedNow data @ rest) = insertRegexExec rest"
      by simp
    from completedTuples_cong [OF this] True show ?thesis by simp
  next
    case False
    let ?rows = "join '',\<newline>'' (map (transactionRow ?sid) (transactions data))"
    let ?tail = "''\<newline>'' @ ?rows @ '';\<newline>''"
    note shape = insertTransactions_shape [OF False refl, of idNow]
    have "insertRegexExec (insertTransactions idNow data @ rest) = Some (?tail @ rest)"
    proof -
      obtain c cs where e: "insertTransactions idNow data @ rest = c # cs"
        unfolding shape by simp
      have "matchInsert (insertTransactions idNow data @ rest) = Some (?tail @ rest)"
        unfolding shape using matchInsert_header [of "?tail @ rest"] by simp
      then show ?thesis unfolding e by simp
    qed
    with skip have found:
      "insertRegexExec (generateSQL ts idNow savedNow data @ rest) = Some (?tail @ rest)"
      by simp
    have rows: "noStart ''INSERT INTO transactions'' ?rows"
    proof (rule noStart_join)
      show "\<forall>x \<in> set (map (transactionRow ?sid) (transactions data)). noStart ''INSERT INTO transactions'' x"
        using txs sid by (auto intro!: noStart_transactionRow)
      show "noStart ''INSERT INTO transactions'' '',\<newline>''" by (rule noStart_constants_transactions)
    qed
    have "noStart ''INSERT INTO transactions'' ?tail"
      by (intro noStart_append rows noStart_constants_transactions)
    from noStart_insertRegexExec [OF this, of rest]
    have after: "completedTuples (?tail @ rest) = completedTuples rest" by (rule completedTuples_cong)
    have "blockTuples (?tail @ rest) False 0 None =
          blockTuples (?rows @ CHR '';'' # (''\<newline>'' @ rest)) False 0 None"
      using blockTuples_plainText [of "''\<newline>''" "?rows @ CHR '';'' # (''\<newline>'' @ rest)" 0 None]
      by simp
    also have "\<dots> = map (rowValues ?sid) (transactions data)"
      by (rule blockTuples_rows)
    finally have tuples:
      "blockTuples (?tail @ rest) False 0 None = map (rowValues ?sid) (transactions data)" .
    have "completedTuples (generateSQL ts idNow savedNow data @ rest) =
          blockTuples (?tail @ rest) False 0 None @ completedTuples (?tail @ rest)"
      using found by (rule completedTuples_Some)
    then show ?thesis
      unfolding tuples after by simp
  qed
qed

lemma completedTuples_Nil: "completedTuples [] = []"
  by (rule completedTuples_None) simp

lemma completedTuples_generateSQL:
  assumes "isoTimestamp ts"
    and "\<forall>s \<in> set (recordTexts data). quote \<notin> set s \<and> \<not> containsCI ''INSERT INTO transactions'' s"
  shows "completedTuples (generateSQL ts idNow savedNow data) =
         map (rowValues (stmtId idNow data)) (transactions data)"
  using completedTuples_generateSQL_append [OF assms, of idNow savedNow "[]"]
  by (simp add: completedTuples_Nil)

lemma scanAll_generateSQL_append:
  assumes ts: "isoTimestamp ts"
    and texts: "\<forall>s \<in> set (recordTexts data). quote \<notin> set s \<and> \<not> containsCI ''INSERT INTO transactions'' s"
  shows "scanAll (generateSQL ts idNow savedNow data @ rest) =
         concat (map (\<lambda>tx. toTransaction (extractValues (rowValues (stmtId idNow data) tx)))
                     (transactions data)) @ scanAll rest"
  unfolding scanAll_completedTuples completedTuples_generateSQL_append [OF assms]
  by (simp add: comp_def)

lemma scanAll_Nil: "scanAll [] = []"
  by (rule scanAll_None) simp

lemma scanAll_generateSQL:
  assumes "isoTimestamp ts"
    and "\<forall>s \<in> set (recordTexts data). quote \<notin> set s \<and> \<not> containsCI ''INSERT INTO transactions'' s"
  shows "scanAll (generateSQL ts idNow savedNow data) =
         concat (map (\<lambda>tx. toTransaction (extractValues (rowValues (stmtId idNow data) tx)))
                     (transactions data))"
  using scanAll_generateSQL_append [OF assms, of idNow savedNow "[]"] by (simp add: scanAll_Nil)

section \<open>The values of an encoded row\<close>

lemma isNumberChar_cases: "isNumberChar c \<Longrightarrow> c \<noteq> quote \<and> canonicalize c \<noteq> CHR ''N''"
  by (auto simp: isNumberChar_def isDigit_def canonicalize_other)

lemma extractValues_numberChar: "isNumberChar c \<Longrightarrow> extractValues (c # cs) \<noteq> []"
proof -
  assume a: "isNumberChar c"
  then have "matchNumber (c # cs) \<noteq> None"
    by (simp add: matchNumber_def Let_def split: list.split)
  then obtain t r where "matchNumber (c # cs) = Some (t, r)" by auto
  with isNumberChar_cases [OF a] show ?thesis
    by (simp add: extractValues.simps)
qed

lemma extractValues_number_before:
  assumes "positional x" and "\<not> isNumberChar d" and "d \<noteq> CHR ''.''"
  shows "extractValues (numberToString x @ d # r) = VNum x # extractValues (d # r)"
proof -
  from assms obtain m e where x: "x = Fin m e" by (cases x) (simp_all add: positional_def)
  from numberToString_head [of m e] x obtain c cs where
    s: "numberToString x = c # cs" and c: "isNumberChar c" by auto
  have m: "matchNumber (c # cs @ d # r) = Some (numberToString x, d # r)"
    using matchNumber_numberToString_before [OF assms, of r] s by simp
  show ?thesis
    unfolding s append_Cons
    using isNumberChar_cases [OF c] m stringToNumber_numberToString [OF assms(1)]
    by (simp add: extractValues.simps)
qed

lemma extractValues_number:
  assumes "positional x"
  shows "extractValues (numberToString x @ CHR '','' # r) = VNum x # extractValues (CHR '','' # r)"
  by (rule extractValues_number_before [OF assms]) (simp_all add: isNumberChar_def isDigit_def)

lemma extractValues_NULL: "extractValues (''NULL'' @ r) = VNull # extractValues r"
proof -
  have "matchLiteral ''NULL'' (''NULL'' @ r) = Some r" by (rule matchLiteral_append) simp
  then show ?thesis by (simp add: extractValues.simps)
qed

lemma extractValues_sqlEscape_opt:
  assumes "rest = [] \<or> hd rest \<noteq> quote"
  shows "extractValues (sqlEscape x @ rest) =
         (case x of None \<Rightarrow> VNull | Some s \<Rightarrow> VStr s) # extractValues rest"
proof (cases x)
  case None
  then show ?thesis using extractValues_NULL [of rest] by (simp add: sqlEscape_def)
next
  case (Some s)
  then show ?thesis using extractValues_sqlEscape [OF assms, of s] by simp
qed

lemma extractValues_separator [simp]:
  "extractValues (CHR '','' # CHR '' '' # r) = extractValues r"
  by (simp add: extractValues_skip)

lemma extractValues_Nil [simp]: "extractValues [] = []"
  by (simp add: extractValues.simps)

lemma extractValues_rowValues:
  assumes "positional (amount tx)"
  shows "extractValues (rowValues sid tx) =
         [VStr sid, VStr (date tx), VNum (amount tx), VStr (description tx),
          VStr (transaction_code tx), VStr (partner_name tx), VStr (partner_account tx),
          VStr (typeName (type tx)), (case category tx of None \<Rightarrow> VNull | Some c \<Rightarrow> VStr c)]"
proof -
  have e: "\<And>s r. extractValues (sqlEscape (Some s) @ '', '' @ r) = VStr s # extractValues r"
    using extractValues_sqlEscape [of "'', '' @ _"] by simp
  have n: "\<And>r. extractValues (numberToString (amount tx) @ '', '' @ r) = VNum (amount tx) # extractValues r"
    using extractValues_number [OF assms] by (simp add: extractValues_skip)
  have l: "extractValues (sqlEscape (category tx)) =
           [case category tx of None \<Rightarrow> VNull | Some c \<Rightarrow> VStr c]"
    using extractValues_sqlEscape_opt [of "[]" "category tx"] by simp
  show ?thesis
    unfolding rowValues_def by (simp only: e n l)
qed

lemma toTransaction_rowValues:
  assumes "positional (amount tx)" and "category tx \<noteq> None"
  shows "toTransaction (extractValues (rowValues sid tx)) = [tx]"
proof -
  from assms(1) have a: "Number_of (orElse (VNum (amount tx)) (VNum (Fin 0 0))) = amount tx"
    by (cases "amount tx") (auto simp: positional_def orElse_def split: if_splits)
  have s: "\<And>s. String_of (orElse (VStr s) (VStr [])) = s" by (simp add: orElse_def)
  have t: "(if typeName (type tx) = ''CREDIT'' then CREDIT else DEBIT) = type tx"
    by (cases "type tx") simp_all
  from assms(2) obtain c where c: "category tx = Some c" by auto
  show ?thesis
    unfolding extractValues_rowValues [OF assms(1)] toTransaction_def rowOf_def
    by (simp add: a s t c)
qed

lemma length_extractValues_statementValues:
  "6 \<le> length (extractValues (statementValues idNow savedNow data))"
proof -
  have e: "\<And>x r. extractValues (''    '' @ sqlEscape x @ '',\<newline>'' @ r) =
                 (case x of None \<Rightarrow> VNull | Some s \<Rightarrow> VStr s) # extractValues r"
    using extractValues_sqlEscape_opt [of "'',\<newline>'' @ _"] by (simp add: extractValues_skip)
  have nl: "\<And>r. extractValues (CHR ''\<newline>'' # r) = extractValues r"
    by (simp add: extractValues_skip)
  have "\<exists>m e'. ofInt savedNow = Fin m e'"
    by (simp add: ofInt_def mkFin_def split: prod.split)
  then obtain m e' where "ofInt savedNow = Fin m e'" by blast
  with numberToString_head [of m e'] obtain c cs where
    "numberToString (ofInt savedNow) = c # cs" "isNumberChar c" by auto
  then have n: "extractValues (''    '' @ numberToString (ofInt savedNow) @ ''\<newline>'') \<noteq> []"
    using extractValues_numberChar [of c "cs @ ''\<newline>''"] by (simp add: extractValues_skip)
  have "extractValues (statementValues idNow savedNow data) =
        VStr (stmtId idNow data) #
        (case fileName data of None \<Rightarrow> VNull | Some s \<Rightarrow> VStr s) #
        (case bankName data of None \<Rightarrow> VNull | Some s \<Rightarrow> VStr s) #
        (case accountHolder data of None \<Rightarrow> VNull | Some s \<Rightarrow> VStr s) #
        (case period data of None \<Rightarrow> VNull | Some s \<Rightarrow> VStr s) #
        extractValues (''    '' @ numberToString (ofInt savedNow) @ ''\<newline>'')"
    unfolding statementValues_tail statementValuesTail_def
    by (simp only: nl e option.case)
  with n show ?thesis by (cases "extractValues (''    '' @ numberToString (ofInt savedNow) @ ''\<newline>'')") simp_all
qed

lemma toTransaction_rows:
  assumes "\<forall>tx \<in> set txs. positional (amount tx) \<and> category tx \<noteq> None"
  shows "concat (map (\<lambda>tx. toTransaction (extractValues (rowValues sid tx))) txs) = txs"
  using assms by (induction txs) (simp_all add: toTransaction_rowValues)

section \<open>The stack of the matcher\<close>

text \<open>
  The stack is exceeded only on a text that is longer than the stack holds, and never on a
  text without quote characters.
\<close>

lemma groupRuns_bounds: "0 \<le> groupRuns s \<and> groupRuns s \<le> int (length s)"
proof (induction s rule: groupRuns.induct)
  case 1
  show ?case by simp
next
  case (2 c cs)
  show ?case
  proof (cases "c = quote")
    case False
    with 2 show ?thesis by simp
  next
    case True
    show ?thesis
    proof (cases cs)
      case Nil
      with True show ?thesis by simp
    next
      case (Cons c' cs')
      with True 2 show ?thesis by (cases "c' = quote") simp_all
    qed
  qed
qed

lemma quotedRun_length: "quotedRun cs = Some (g, r) \<Longrightarrow> length r < length cs"
  by (drule quotedRun_decompose) simp

lemma matchNumber_length: "matchNumber s = Some (tok, r) \<Longrightarrow> length r < length s"
proof -
  assume "matchNumber s = Some (tok, r)"
  then have "s = tok @ r \<and> tok \<noteq> []" by (rule matchNumber_decompose)
  then have "length s = length tok + length r" "0 < length tok" by (metis length_append, simp)
  then show ?thesis by simp
qed

lemma matchLiteral_suffix: "matchLiteral p s = Some r \<Longrightarrow> \<exists>q. s = q @ r"
proof (induction p s rule: matchLiteral.induct)
  case (1 s)
  then show ?case by simp
next
  case (2 p ps)
  then show ?case by simp
next
  case (3 p ps c cs)
  then have "matchLiteral ps cs = Some r" by (simp split: if_splits)
  with 3 obtain q where "cs = q @ r" by (auto split: if_splits)
  then have "c # cs = (c # q) @ r" by simp
  then show ?case by blast
qed

lemma stackExceeded_step:
  assumes "stackExceeded limit (c # cs)"
  shows "(c = quote \<and> limit < groupRuns cs) \<or> (\<exists>r. length r \<le> length cs \<and> stackExceeded limit r)"
proof (cases "c = quote \<and> limit < groupRuns cs")
  case True
  then show ?thesis by simp
next
  case False
  show ?thesis
  proof (cases "if c = quote then quotedRun cs else None")
    case (Some p)
    obtain g r where p: "p = (g, r)" by (cases p)
    with Some have "quotedRun cs = Some (g, r)" by (auto split: if_splits)
    from quotedRun_length [OF this] have "length r \<le> length cs" by simp
    moreover from assms False Some p have "stackExceeded limit r"
      by (simp add: stackExceeded.simps)
    ultimately show ?thesis by blast
  next
    case None
    note q = this
    show ?thesis
    proof (cases "matchLiteral ''NULL'' (c # cs)")
      case (Some r)
      from matchLiteral_length [OF this] have "length r \<le> length cs" by simp
      moreover from assms False q Some have "stackExceeded limit r"
        by (simp add: stackExceeded.simps)
      ultimately show ?thesis by blast
    next
      case None
      note n = this
      show ?thesis
      proof (cases "matchNumber (c # cs)")
        case (Some p)
        obtain tok r where p: "p = (tok, r)" by (cases p)
        from matchNumber_length [of "c # cs" tok r] Some p have "length r \<le> length cs" by simp
        moreover from assms False q n Some p have "stackExceeded limit r"
          by (simp add: stackExceeded.simps)
        ultimately show ?thesis by blast
      next
        case None
        with assms False q n have "stackExceeded limit cs"
          by (simp add: stackExceeded.simps)
        then show ?thesis by blast
      qed
    qed
  qed
qed

lemma stackExceeded_length: "stackExceeded limit s \<Longrightarrow> limit < int (length s)"
proof (induction "length s" arbitrary: s rule: less_induct)
  case less
  show ?case
  proof (cases s)
    case Nil
    with less.prems show ?thesis by (simp add: stackExceeded.simps)
  next
    case (Cons c cs)
    from stackExceeded_step [of limit c cs] less.prems Cons
    consider "limit < groupRuns cs" | r where "length r \<le> length cs" "stackExceeded limit r"
      by blast
    then show ?thesis
    proof cases
      case 1
      with groupRuns_bounds [of cs] Cons show ?thesis by simp
    next
      case 2
      with less.hyps [of r] Cons show ?thesis by simp
    qed
  qed
qed

lemma stackExceeded_no_quote: "quote \<notin> set s \<Longrightarrow> \<not> stackExceeded limit s"
proof (induction "length s" arbitrary: s rule: less_induct)
  case less
  show ?case
  proof
    assume a: "stackExceeded limit s"
    then obtain c cs where s: "s = c # cs" by (cases s) (simp_all add: stackExceeded.simps)
    from less.prems s have cq: "c \<noteq> quote" and csq: "quote \<notin> set cs" by auto
    show False
    proof (cases "matchLiteral ''NULL'' (c # cs)")
      case (Some r)
      from a s cq Some have e: "stackExceeded limit r" by (simp add: stackExceeded.simps)
      have "\<exists>p. c # cs = p @ r" using Some by (rule matchLiteral_suffix)
      then obtain p where p: "c # cs = p @ r" by blast
      with less.prems s have "quote \<notin> set r" by auto
      moreover from matchLiteral_length [OF Some] have "length r < length s" using s by simp
      ultimately show False using less.hyps [of r] e by simp
    next
      case None
      note n = this
      show False
      proof (cases "matchNumber (c # cs)")
        case (Some p)
        obtain tok r where p: "p = (tok, r)" by (cases p)
        from a s cq n Some p have e: "stackExceeded limit r" by (simp add: stackExceeded.simps)
        from matchNumber_decompose [of "c # cs" tok r] Some p have d: "c # cs = tok @ r" by simp
        with less.prems s have "quote \<notin> set r" by auto
        moreover from matchNumber_length [of "c # cs" tok r] Some p s have "length r < length s" by simp
        ultimately show False using less.hyps [of r] e by simp
      next
        case None
        with a s cq n have "stackExceeded limit cs" by (simp add: stackExceeded.simps)
        with less.hyps [of cs] csq s show False by simp
      qed
    qed
  qed
qed

text \<open>
  The metadata tuple and the completed tuples are parts of the document, so the stack
  suffices for a document that is not longer than the stack holds.
\<close>

lemma untilClose_length: "untilClose s = Some v \<Longrightarrow> length v \<le> length s"
proof (induction s arbitrary: v)
  case Nil
  then show ?case by simp
next
  case (Cons c cs)
  show ?case
  proof (cases "c = CHR '')'' \<and> cs \<noteq> [] \<and> hd cs = CHR '';''")
    case True
    with Cons.prems show ?thesis by simp
  next
    case False
    with Cons.prems obtain w where w: "untilClose cs = Some w" and v: "v = c # w" by auto
    from Cons.IH [OF w] v show ?thesis by simp
  qed
qed

lemma captureValues_length: "captureValues s = Some v \<Longrightarrow> length v \<le> length s"
proof -
  assume a: "captureValues s = Some v"
  then obtain c cs w where s: "s = c # cs" and w: "untilClose cs = Some w" and v: "v = c # w"
    by (auto simp: captureValues_def split: list.splits)
  from untilClose_length [OF w] s v show ?thesis by simp
qed

lemma matchStatements_length:
  assumes "matchStatements s = Some v"
  shows "length v \<le> length s"
proof -
  have sp: "\<And>t. length (dropWhile isSpace t) \<le> length t" by (rule length_dropWhile_le)
  from assms obtain r1 r2 r3 c r4 where
    r1: "matchLiteral ''INSERT INTO statements'' s = Some r1" and
    r2: "columnList (dropWhile isSpace r1) = Some r2" and
    r3: "matchLiteral ''VALUES'' (dropWhile isSpace r2) = Some r3" and
    r4: "dropWhile isSpace r3 = c # r4" and
    v: "captureValues r4 = Some v"
    by (auto simp: matchStatements_def split: option.splits list.splits if_splits)
  from matchLiteral_length [OF r1] have "length r1 \<le> length s" by simp
  moreover from columnList_length [OF r2] sp [of r1] have "length r2 \<le> length r1" by simp
  moreover from matchLiteral_length [OF r3] sp [of r2] have "length r3 \<le> length r2" by simp
  moreover from r4 sp [of r3] have "length r4 \<le> length r3" by simp
  moreover note captureValues_length [OF v]
  ultimately show ?thesis by simp
qed

lemma stmtMatch_length: "stmtMatch t = Some v \<Longrightarrow> length v \<le> length t"
proof (induction t)
  case Nil
  then show ?case by simp
next
  case (Cons c cs)
  show ?case
  proof (cases "matchStatements (c # cs)")
    case None
    with Cons show ?thesis by simp
  next
    case (Some w)
    with Cons.prems have "w = v" by simp
    with matchStatements_length [OF Some] show ?thesis by simp
  qed
qed

lemma held_extend:
  "length (concat (present (extend t cs))) \<le> length (concat (present t)) + length cs"
  by (cases t) (simp_all add: present_def extend_def)

lemma blockTuples_length:
  "x \<in> set (blockTuples s inString parenDepth tuple) \<Longrightarrow>
   length x \<le> length s + length (concat (present tuple))"
proof (induction s inString parenDepth tuple rule: blockTuples.induct)
  case (1 inString parenDepth tuple)
  then show ?case by simp
next
  case (2 c cs inString parenDepth tuple)
  note steps = blockTuples_steps
  note h = held_extend [of tuple]
  show ?case
  proof (cases inString)
    case True
    show ?thesis
    proof (cases "c = quote")
      case False
      with True "2.prems" have "x \<in> set (blockTuples cs True parenDepth (extend tuple [c]))"
        by (simp add: steps)
      from "2.IH"(4) [OF True False this] h [of "[c]"] show ?thesis by simp
    next
      case q: True
      show ?thesis
      proof (cases cs)
        case Nil
        with True q "2.prems" show ?thesis by (simp add: steps)
      next
        case (Cons c' cs')
        show ?thesis
        proof (cases "c' = quote")
          case True
          with \<open>inString\<close> q Cons "2.prems"
          have "x \<in> set (blockTuples cs' True parenDepth (extend tuple [c, c']))"
            by (simp add: steps)
          from "2.IH"(2) [OF \<open>inString\<close> q Cons True this] h [of "[c, c']"] Cons show ?thesis by simp
        next
          case False
          with \<open>inString\<close> q Cons "2.prems"
          have "x \<in> set (blockTuples cs False parenDepth (extend tuple [c]))"
            by (simp add: steps)
          from "2.IH"(3) [OF \<open>inString\<close> q Cons False this] h [of "[c]"] show ?thesis by simp
        qed
      qed
    qed
  next
    case nin: False
    show ?thesis
    proof (cases "c = quote")
      case True
      with nin "2.prems" have "x \<in> set (blockTuples cs True parenDepth (extend tuple [c]))"
        by (simp add: steps)
      from "2.IH"(5) [OF nin True this] h [of "[c]"] show ?thesis by simp
    next
      case nq: False
      show ?thesis
      proof (cases "c = CHR ''(''")
        case True
        with nin nq "2.prems"
        have "x \<in> set (blockTuples cs False (parenDepth + 1)
                 (if parenDepth = 0 then Some [] else extend tuple [c]))"
          by (auto simp: steps)
        from "2.IH"(6) [OF nin nq True this] h [of "[c]"] show ?thesis
          by (cases "parenDepth = 0") (simp_all add: present_def)
      next
        case np: False
        show ?thesis
        proof (cases "c = CHR '')''")
          case True
          note cl = this
          show ?thesis
          proof (cases "parenDepth - 1 = 0 \<and> tuple \<noteq> None")
            case True
            with nin nq np cl "2.prems"
            consider "x = the tuple" | "x \<in> set (blockTuples cs False 0 None)"
              by (auto simp: steps)
            then show ?thesis
            proof cases
              case 1
              with True show ?thesis by (auto simp: present_def)
            next
              case 2
              from "2.IH"(7) [OF nin nq np cl True 2] show ?thesis by (simp add: present_def)
            qed
          next
            case False
            with nin nq np cl "2.prems"
            have "x \<in> set (blockTuples cs False (parenDepth - 1) (extend tuple [c]))"
              by (simp add: steps)
            from "2.IH"(8) [OF nin nq np cl False this] h [of "[c]"] show ?thesis by simp
          qed
        next
          case nc: False
          show ?thesis
          proof (cases "c = CHR '';'' \<and> parenDepth = 0")
            case True
            with nin nq np nc "2.prems" show ?thesis by (simp add: steps)
          next
            case False
            with nin nq np nc "2.prems"
            have "x \<in> set (blockTuples cs False parenDepth (extend tuple [c]))"
              by (simp add: steps)
            from "2.IH"(9) [OF nin nq np nc False this] h [of "[c]"] show ?thesis by simp
          qed
        qed
      qed
    qed
  qed
qed

lemma completedTuples_length: "x \<in> set (completedTuples s) \<Longrightarrow> length x \<le> length s"
proof (induction s rule: completedTuples.induct)
  case (1 s)
  show ?case
  proof (cases "insertRegexExec s")
    case None
    with "1.prems" show ?thesis by (simp add: completedTuples.simps [of s])
  next
    case (Some r)
    from insertRegexExec_length [OF Some] have l: "length r < length s" .
    from "1.prems" Some consider "x \<in> set (blockTuples r False 0 None)" | "x \<in> set (completedTuples r)"
      by (auto simp: completedTuples.simps [of s])
    then show ?thesis
    proof cases
      case 1
      from blockTuples_length [OF this] l show ?thesis by (simp add: present_def)
    next
      case 2
      from "1.IH" [OF Some this] l show ?thesis by simp
    qed
  qed
qed

lemma stack_suffices:
  assumes "int (length t) \<le> limit"
  shows "stmtMatch t = Some v \<Longrightarrow> \<not> stackExceeded limit v"
    and "\<not> list_ex (stackExceeded limit) (completedTuples t)"
proof -
  show "\<not> stackExceeded limit v" if "stmtMatch t = Some v"
    using stmtMatch_length [OF that] stackExceeded_length [of limit v] assms by auto
  show "\<not> list_ex (stackExceeded limit) (completedTuples t)"
    using completedTuples_length [of _ t] stackExceeded_length [of limit] assms
    by (fastforce simp: list_ex_iff)
qed

text \<open>
  On the tuples that the encoder writes the stack is exceeded exactly when one of the
  quoted fields is longer than the stack holds.
\<close>

lemma groupRuns_doubleQuotes:
  "rest = [] \<or> hd rest \<noteq> quote \<Longrightarrow> groupRuns (doubleQuotes s @ quote # rest) = int (length s)"
proof (induction s)
  case Nil
  then show ?case by (cases rest) auto
next
  case (Cons x xs)
  then show ?case by auto
qed

lemma stackExceeded_sqlEscape:
  assumes "rest = [] \<or> hd rest \<noteq> quote"
  shows "stackExceeded limit (sqlEscape (Some s) @ rest) =
         (limit < int (length s) \<or> stackExceeded limit rest)"
  using quotedRun_doubleQuotes [OF assms, of s] groupRuns_doubleQuotes [OF assms, of s]
  by (simp add: sqlEscape_def stackExceeded.simps)

lemma stackExceeded_skip:
  "c \<noteq> quote \<Longrightarrow> canonicalize c \<noteq> CHR ''N'' \<Longrightarrow> \<not> isNumberChar c \<Longrightarrow>
   stackExceeded limit (c # cs) = stackExceeded limit cs"
  by (simp add: stackExceeded.simps matchNumber_def)

lemma stackExceeded_NULL: "stackExceeded limit (''NULL'' @ r) = stackExceeded limit r"
proof -
  have "matchLiteral ''NULL'' (''NULL'' @ r) = Some r" by (rule matchLiteral_append) simp
  then show ?thesis by (simp add: stackExceeded.simps)
qed

lemma stackExceeded_sqlEscape_opt:
  assumes "rest = [] \<or> hd rest \<noteq> quote"
  shows "stackExceeded limit (sqlEscape x @ rest) =
         (list_ex (\<lambda>s. limit < int (length s)) (present x) \<or> stackExceeded limit rest)"
proof (cases x)
  case None
  then show ?thesis using stackExceeded_NULL [of limit rest] by (simp add: sqlEscape_def present_def)
next
  case (Some s)
  then show ?thesis using stackExceeded_sqlEscape [OF assms, of limit s] by (simp add: present_def)
qed

lemma stackExceeded_Nil [simp]: "stackExceeded limit [] = False"
  by (simp add: stackExceeded.simps)

lemma stackExceeded_separator [simp]:
  "stackExceeded limit (CHR '','' # CHR '' '' # r) = stackExceeded limit r"
  by (simp add: stackExceeded_skip)

lemma stackExceeded_number_before:
  assumes "positional x" and "\<not> isNumberChar d" and "d \<noteq> CHR ''.''"
  shows "stackExceeded limit (numberToString x @ d # r) = stackExceeded limit (d # r)"
proof -
  from assms obtain m e where x: "x = Fin m e" by (cases x) (simp_all add: positional_def)
  from numberToString_head [of m e] x obtain c cs where
    s: "numberToString x = c # cs" and c: "isNumberChar c" by auto
  have m: "matchNumber (c # cs @ d # r) = Some (numberToString x, d # r)"
    using matchNumber_numberToString_before [OF assms, of r] s by simp
  show ?thesis
    unfolding s append_Cons
    using isNumberChar_cases [OF c] m
    by (simp add: stackExceeded.simps)
qed

lemma stackExceeded_rowValues:
  assumes "positional (amount tx)"
  shows "stackExceeded limit (rowValues sid tx) =
         list_ex (\<lambda>s. limit < int (length s))
           ([sid, date tx, description tx, transaction_code tx, partner_name tx,
             partner_account tx, typeName (type tx)] @ present (category tx))"
proof -
  have e: "\<And>s r. stackExceeded limit (sqlEscape (Some s) @ '', '' @ r) =
             (limit < int (length s) \<or> stackExceeded limit r)"
    using stackExceeded_sqlEscape [of "'', '' @ _"] by simp
  have n: "\<And>r. stackExceeded limit (numberToString (amount tx) @ '', '' @ r) = stackExceeded limit r"
    using stackExceeded_number_before [OF assms, of "CHR '',''"] by (simp add: isNumberChar_def isDigit_def)
  have l: "stackExceeded limit (sqlEscape (category tx)) =
           list_ex (\<lambda>s. limit < int (length s)) (present (category tx))"
    using stackExceeded_sqlEscape_opt [of "[]" limit "category tx"] by simp
  show ?thesis
    unfolding rowValues_def by (simp only: e n l) auto
qed

lemma extractValues_statementValues:
  assumes "positional (ofInt savedNow)"
  shows "extractValues (statementValues idNow savedNow data) =
         [VStr (stmtId idNow data),
          (case fileName data of None \<Rightarrow> VNull | Some s \<Rightarrow> VStr s),
          (case bankName data of None \<Rightarrow> VNull | Some s \<Rightarrow> VStr s),
          (case accountHolder data of None \<Rightarrow> VNull | Some s \<Rightarrow> VStr s),
          (case period data of None \<Rightarrow> VNull | Some s \<Rightarrow> VStr s),
          VNum (ofInt savedNow)]"
proof -
  have e: "\<And>x r. extractValues (''    '' @ sqlEscape x @ '',\<newline>'' @ r) =
                 (case x of None \<Rightarrow> VNull | Some s \<Rightarrow> VStr s) # extractValues r"
    using extractValues_sqlEscape_opt [of "'',\<newline>'' @ _"] by (simp add: extractValues_skip)
  have nl: "\<And>r. extractValues (CHR ''\<newline>'' # r) = extractValues r"
    by (simp add: extractValues_skip)
  have "extractValues (numberToString (ofInt savedNow) @ ''\<newline>'') = [VNum (ofInt savedNow)]"
    using extractValues_number_before [OF assms, of "CHR ''\<newline>''" "[]"]
    by (simp add: extractValues_skip isNumberChar_def isDigit_def)
  then have n: "extractValues (''    '' @ numberToString (ofInt savedNow) @ ''\<newline>'') =
                [VNum (ofInt savedNow)]"
    by (simp add: extractValues_skip)
  show ?thesis
    unfolding statementValues_tail statementValuesTail_def
    by (simp only: nl e n option.case)
qed

lemma stackExceeded_statementValues:
  "stackExceeded limit (statementValues idNow savedNow data) =
   list_ex (\<lambda>s. limit < int (length s))
     (stmtId idNow data # present (fileName data) @ present (bankName data) @
      present (accountHolder data) @ present (period data))"
proof -
  have e: "\<And>x r. stackExceeded limit (''    '' @ sqlEscape x @ '',\<newline>'' @ r) =
             (list_ex (\<lambda>s. limit < int (length s)) (present x) \<or> stackExceeded limit r)"
    using stackExceeded_sqlEscape_opt [of "'',\<newline>'' @ _"] by (simp add: stackExceeded_skip)
  have nl: "\<And>r. stackExceeded limit (CHR ''\<newline>'' # r) = stackExceeded limit r"
    by (simp add: stackExceeded_skip)
  have "quote \<notin> set (''    '' @ numberToString (ofInt savedNow) @ ''\<newline>'')"
    using plainText_no_quote [OF plainText_numberToString, of "ofInt savedNow"] by simp
  from stackExceeded_no_quote [OF this]
  have n: "stackExceeded limit (''    '' @ numberToString (ofInt savedNow) @ ''\<newline>'') = False"
    by simp
  show ?thesis
    unfolding statementValues_tail statementValuesTail_def
    by (simp only: nl e n) (simp add: present_def)
qed

lemma toTransaction_rowValues_any:
  assumes "positional (amount tx)"
  shows "toTransaction (extractValues (rowValues sid tx)) =
         [tx\<lparr>category := Some (case category tx of None \<Rightarrow> [] | Some c \<Rightarrow> c)\<rparr>]"
proof -
  from assms(1) have a: "Number_of (orElse (VNum (amount tx)) (VNum (Fin 0 0))) = amount tx"
    by (cases "amount tx") (auto simp: positional_def orElse_def split: if_splits)
  have s: "\<And>s. String_of (orElse (VStr s) (VStr [])) = s" by (simp add: orElse_def)
  have t: "(if typeName (type tx) = ''CREDIT'' then CREDIT else DEBIT) = type tx"
    by (cases "type tx") simp_all
  have c: "String_of (orElse (case category tx of None \<Rightarrow> VNull | Some c \<Rightarrow> VStr c) (VStr [])) =
           (case category tx of None \<Rightarrow> [] | Some c \<Rightarrow> c)"
    by (cases "category tx") (simp_all add: orElse_def)
  show ?thesis
    unfolding extractValues_rowValues [OF assms(1)] toTransaction_def rowOf_def
    by (simp add: a s t c)
qed

section \<open>Decoding an encoded record\<close>

text \<open>
  A clock reading below \<open>10 ^ 21\<close> is written in positional notation, and it is truthy
  unless it is zero.
\<close>

lemma stripZeros_spec:
  "m \<noteq> 0 \<Longrightarrow> stripZeros m e = (m', e') \<Longrightarrow>
   m' mod 10 \<noteq> 0 \<and> (\<exists>j. m = m' * 10 ^ j \<and> e' = e + int j)"
proof (induction m e arbitrary: m' e' rule: stripZeros.induct)
  case (1 m e)
  show ?case
  proof (cases "m mod 10 = 0")
    case False
    with "1.prems" have "m' = m" "e' = e" by (simp_all add: stripZeros_nodiv)
    with False show ?thesis by (auto intro: exI [of _ 0])
  next
    case True
    with "1.prems"(1) have d: "m div 10 \<noteq> 0" by auto
    from True "1.prems" have s: "stripZeros (m div 10) (e + 1) = (m', e')"
      by (subst (asm) stripZeros.simps) simp
    from "1.IH" [OF _ d s] "1.prems"(1) True obtain j where
      m10: "m' mod 10 \<noteq> 0" and j: "m div 10 = m' * 10 ^ j" "e' = e + 1 + int j"
      by auto
    from True j(1) have "m = m' * 10 ^ Suc j" by auto
    with m10 j(2) show ?thesis by (auto intro: exI [of _ "Suc j"])
  qed
qed

lemma digitsOf_times10: "0 < m \<Longrightarrow> digitsOf (m * 10) = digitsOf m @ ''0''"
  by (subst digitsOf.simps) (simp add: digitChar_def)

lemma length_digitsOf_pow:
  "0 < m \<Longrightarrow> length (digitsOf (m * 10 ^ j)) = length (digitsOf m) + j"
proof (induction j)
  case 0
  show ?case by simp
next
  case (Suc j)
  from Suc.prems have "0 < m * 10 ^ j" by simp
  from digitsOf_times10 [OF this] Suc show ?case by (simp add: mult.assoc mult.commute [of 10])
qed

lemma positional_ofInt:
  assumes "0 \<le> n" and "n < 10 ^ 21"
  shows "positional (ofInt n)"
proof (cases "n = 0")
  case True
  then show ?thesis by (simp add: ofInt_def mkFin_def positional_def)
next
  case False
  with assms(1) have npos: "0 < n" by simp
  obtain m' e' where s: "stripZeros n 0 = (m', e')" by (cases "stripZeros n 0")
  from stripZeros_spec [OF False s] obtain j where
    m10: "m' mod 10 \<noteq> 0" and n: "n = m' * 10 ^ j" and e: "e' = int j"
    by auto
  from npos n have mpos: "0 < m'" by (simp add: zero_less_mult_iff)
  define k where "k = length (digitsOf n)"
  from length_digitsOf_pow [OF mpos, of j] n have k: "k = length (digitsOf m') + j"
    by (simp add: k_def)
  have "k \<le> 21"
  proof (rule ccontr)
    assume "\<not> k \<le> 21"
    then have "21 \<le> k - 1" by simp
    then have "(10::int) ^ 21 \<le> 10 ^ (k - 1)" by (intro power_increasing) simp_all
    with digitsOf_lower [OF npos] assms(2) show False by (simp add: k_def)
  qed
  with k e mpos m10 have "positional (Fin m' e')" by (simp add: positional_def)
  with False s show ?thesis by (simp add: ofInt_def mkFin_def)
qed

lemma truthy_ofInt: "truthy (VNum (ofInt n)) = (n \<noteq> 0)"
proof (cases "n = 0")
  case True
  then show ?thesis by (simp add: ofInt_def mkFin_def)
next
  case False
  obtain m' e' where s: "stripZeros n 0 = (m', e')" by (cases "stripZeros n 0")
  from stripZeros_spec [OF False s] have "m' \<noteq> 0" by auto
  with False s show ?thesis by (simp add: ofInt_def mkFin_def)
qed

lemma stmtMatch_None:
  "\<not> containsCI ''INSERT INTO statements'' t \<Longrightarrow> stmtMatch t = None"
  by (induction t) (auto simp: matchStatements_def split: option.splits)

lemma replicate_texts:
  "quote \<notin> set (replicate k (CHR ''a''))"
  "\<not> containsCI ''INSERT INTO transactions'' (replicate k (CHR ''a''))"
  "\<not> containsCI ''INSERT INTO statements'' (replicate k (CHR ''a''))"
  "\<not> hasClose (replicate k (CHR ''a''))"
proof -
  show "quote \<notin> set (replicate k (CHR ''a''))" by simp
  have c: "canonicalize (CHR ''a'') = CHR ''A''" by code_simp
  have i: "canonicalize (CHR ''I'') = CHR ''I''" by code_simp
  have n: "k' \<noteq> [] \<Longrightarrow> canonicalize (hd k') = CHR ''I'' \<Longrightarrow>
           \<not> containsCI k' (replicate k (CHR ''a''))" for k'
  proof (induction k)
    case 0
    then show ?case by (cases k') simp_all
  next
    case (Suc k)
    then show ?case by (cases k') (simp_all add: c)
  qed
  show "\<not> containsCI ''INSERT INTO transactions'' (replicate k (CHR ''a''))"
    by (rule n) (simp_all add: i)
  show "\<not> containsCI ''INSERT INTO statements'' (replicate k (CHR ''a''))"
    by (rule n) (simp_all add: i)
  show "\<not> hasClose (replicate k (CHR ''a''))"
  proof (induction k)
    case 0
    show ?case by simp
  next
    case (Suc k)
    then show ?case by (cases k) simp_all
  qed
qed

text \<open>
  The decoder on a document where the metadata statement is found with six values and
  the stack suffices, and on the backup of a record whose fields hold no quote character,
  no keyword of the two patterns and no end of the metadata statement.
\<close>

lemma parseSQL_parts:
  assumes "stmtMatch t = Some v" and "\<not> stackExceeded limit v" and "6 \<le> length (extractValues v)"
    and "\<not> list_ex (stackExceeded limit) (completedTuples t)"
  shows "parseSQL limit now t =
         Inr \<lparr> id' = Some (String_of (orElse (extractValues v ! 0) (VStr []))),
               fileName = Some (String_of (orElse (extractValues v ! 1) (VStr ''Recovered_Statement''))),
               savedAt = Some (Number_of (orElse (extractValues v ! 5) (VNum (ofInt now)))),
               bankName = Some (String_of (orElse (extractValues v ! 2) (VStr []))),
               accountHolder = Some (String_of (orElse (extractValues v ! 3) (VStr []))),
               period = Some (String_of (orElse (extractValues v ! 4) (VStr []))),
               transactions = scanAll t \<rparr>"
  using assms by (simp add: parseSQL_def parseSQL_try_def Let_def)

lemma defaults:
  "String_of (orElse (case x of None \<Rightarrow> VNull | Some s \<Rightarrow> VStr s) (VStr d)) =
   (case x of None \<Rightarrow> d | Some s \<Rightarrow> if s = [] then d else s)"
  by (cases x) (simp_all add: orElse_def)

lemma default_empty:
  "(case x of None \<Rightarrow> [] | Some s \<Rightarrow> if s = [] then [] else s) = (case x of None \<Rightarrow> [] | Some s \<Rightarrow> s)"
  by (cases x) simp_all

lemma decode_generateSQL:
  assumes ts: "isoTimestamp timestamp"
    and texts: "\<forall>s \<in> set (recordTexts data). quote \<notin> set s \<and> \<not> containsCI ''INSERT INTO transactions'' s"
    and bank: "\<forall>b \<in> set (present (bankName data)). \<not> containsCI ''INSERT INTO statements'' b"
    and close: "\<forall>s \<in> set (metadataTexts data). \<not> hasClose s"
    and rows: "\<forall>tx \<in> set (transactions data). positional (amount tx)"
    and clock: "0 \<le> savedNow" "savedNow < 10 ^ 21"
    and stack: "\<forall>s \<in> set (stmtId idNow data # recordTexts data). int (length s) \<le> limit" "6 \<le> limit"
  shows "parseSQL limit now (generateSQL timestamp idNow savedNow data) =
         Inr (decoded now idNow savedNow data)"
proof -
  let ?doc = "generateSQL timestamp idNow savedNow data"
  let ?v = "statementValues idNow savedNow data"
  from texts close have mc: "\<forall>s \<in> set (metadataTexts data). quote \<notin> set s \<and> \<not> hasClose s"
    by (simp add: recordTexts_def)
  have sm: "stmtMatch ?doc = Some ?v"
    by (rule stmtMatch_generateSQL [OF ts bank mc])
  have pos: "positional (ofInt savedNow)" using clock by (rule positional_ofInt)
  note ev = extractValues_statementValues [OF pos, of idNow data]
  have len: "6 \<le> length (extractValues ?v)" unfolding ev by simp
  have fits: "\<not> limit < int (length s)" if "s \<in> set (recordTexts data)" for s
    using stack(1) that by auto
  have fitsId: "\<not> limit < int (length (stmtId idNow data))"
    using stack(1) by simp
  have st: "\<not> stackExceeded limit ?v"
    unfolding stackExceeded_statementValues
    using fitsId fits by (auto simp: list_ex_iff recordTexts_def metadataTexts_def)
  have ct: "completedTuples ?doc = map (rowValues (stmtId idNow data)) (transactions data)"
    by (rule completedTuples_generateSQL [OF ts texts])
  have tl: "int (length (typeName ty)) \<le> limit" for ty
    using stack(2) by (cases ty) simp_all
  have rowok: "\<not> stackExceeded limit (rowValues (stmtId idNow data) tx)"
    if "tx \<in> set (transactions data)" for tx
  proof -
    from that rows have p: "positional (amount tx)" by simp
    from that have "set (transactionTexts tx) \<subseteq> set (recordTexts data)"
      by (auto simp: recordTexts_def)
    with fits have f: "\<And>s. s \<in> set (transactionTexts tx) \<Longrightarrow> \<not> limit < int (length s)" by auto
    have g: "\<not> limit < int (length (typeName (type tx)))" using tl [of "type tx"] by simp
    have "\<not> list_ex (\<lambda>s. limit < int (length s))
            (stmtId idNow data # typeName (type tx) # transactionTexts tx)"
      using f g fitsId by (auto simp: list_ex_iff)
    then show ?thesis
      unfolding stackExceeded_rowValues [OF p]
      by (auto simp: transactionTexts_def list_ex_iff)
  qed
  have nt: "\<not> list_ex (stackExceeded limit) (completedTuples ?doc)"
    unfolding ct using rowok by (auto simp: list_ex_iff)
  have sc: "scanAll ?doc =
        map (\<lambda>tx. tx\<lparr>category := Some (case category tx of None \<Rightarrow> [] | Some c \<Rightarrow> c)\<rparr>)
          (transactions data)"
  proof -
    have "concat (map (\<lambda>t. toTransaction (extractValues t)) (map (rowValues sid) txs)) =
          map (\<lambda>tx. tx\<lparr>category := Some (case category tx of None \<Rightarrow> [] | Some c \<Rightarrow> c)\<rparr>) txs"
      if "\<forall>tx \<in> set txs. positional (amount tx)" for txs sid
      using that by (induction txs) (simp_all add: toTransaction_rowValues_any)
    from this [OF rows] show ?thesis
      unfolding scanAll_completedTuples ct .
  qed
  have sa: "Number_of (orElse (VNum (ofInt savedNow)) (VNum (ofInt now))) =
            (if savedNow = 0 then ofInt now else ofInt savedNow)"
    by (simp add: orElse_def truthy_ofInt)
  have id: "String_of (orElse (VStr (stmtId idNow data)) (VStr [])) = stmtId idNow data"
    by (simp add: orElse_def)
  show ?thesis
    unfolding parseSQL_parts [OF sm st len nt] ev sc
    by (simp add: sa id defaults default_empty)
qed

text \<open>
  The example statements meet the conditions of these lemmas.
\<close>

lemma example_conditions:
  "isoTimestamp exampleTimestamp"
  "\<forall>s \<in> set (metadataTexts exampleStatement). quote \<notin> set s \<and> \<not> containsCI ''INSERT INTO transactions'' s"
  "\<forall>b \<in> set (present (bankName exampleStatement)). \<not> containsCI ''INSERT INTO statements'' b"
  "\<forall>s \<in> set (metadataTexts exampleStatement). quote \<notin> set s \<and> \<not> hasClose s"
  by code_simp+

lemma example_stack:
  "\<not> list_ex (\<lambda>s. 1000000 < int (length s))
      (stmtId 1800000000000 exampleStatement # present (fileName exampleStatement) @
       present (bankName exampleStatement) @ present (accountHolder exampleStatement) @
       present (period exampleStatement))"
  by code_simp

lemma injected_metadata: "metadataTexts injectedStatement = metadataTexts exampleStatement"
  "bankName injectedStatement = bankName exampleStatement"
  "metadataTexts nestedStatement = metadataTexts exampleStatement"
  "bankName nestedStatement = bankName exampleStatement"
  by (simp_all add: injectedStatement_def nestedStatement_def metadataTexts_def)

lemma same_metadata:
  assumes "metadataTexts data = metadataTexts exampleStatement"
    and "bankName data = bankName exampleStatement"
    and "stmtId 1800000000000 data = stmtId 1800000000000 exampleStatement"
    and "fileName data = fileName exampleStatement"
    and "accountHolder data = accountHolder exampleStatement"
    and "period data = period exampleStatement"
  shows "stmtMatch (generateSQL exampleTimestamp 1800000000000 1800000000000 data) =
           Some (statementValues 1800000000000 1800000000000 data)"
    and "\<not> stackExceeded 1000000 (statementValues 1800000000000 1800000000000 data)"
    and "insertRegexExec (generateSQL exampleTimestamp 1800000000000 1800000000000 data) =
         insertRegexExec (insertTransactions 1800000000000 data)"
proof -
  show "stmtMatch (generateSQL exampleTimestamp 1800000000000 1800000000000 data) =
           Some (statementValues 1800000000000 1800000000000 data)"
    by (rule stmtMatch_generateSQL [OF example_conditions(1)])
       (unfold assms, rule example_conditions(3), rule example_conditions(4))
  show "\<not> stackExceeded 1000000 (statementValues 1800000000000 1800000000000 data)"
    unfolding stackExceeded_statementValues assms by (rule example_stack)
  show "insertRegexExec (generateSQL exampleTimestamp 1800000000000 1800000000000 data) =
         insertRegexExec (insertTransactions 1800000000000 data)"
    by (rule insertRegexExec_generateSQL [OF example_conditions(1)])
       (unfold assms, rule example_conditions(2))
qed

lemma injected_same:
  "stmtId 1800000000000 injectedStatement = stmtId 1800000000000 exampleStatement"
  "fileName injectedStatement = fileName exampleStatement"
  "accountHolder injectedStatement = accountHolder exampleStatement"
  "period injectedStatement = period exampleStatement"
  "stmtId 1800000000000 nestedStatement = stmtId 1800000000000 exampleStatement"
  "fileName nestedStatement = fileName exampleStatement"
  "accountHolder nestedStatement = accountHolder exampleStatement"
  "period nestedStatement = period exampleStatement"
  by (simp_all add: injectedStatement_def nestedStatement_def stmtId_def)


lemma example_record_conditions:
  "\<forall>s \<in> set (recordTexts exampleStatement). quote \<notin> set s \<and> \<not> containsCI ''INSERT INTO transactions'' s"
  "\<forall>s \<in> set (metadataTexts exampleStatement). \<not> hasClose s"
  "\<forall>tx \<in> set (transactions exampleStatement). positional (amount tx)"
  "\<forall>s \<in> set (stmtId 1800000000000 exampleStatement # recordTexts exampleStatement). int (length s) \<le> 1000000"
proof -
  have "list_all (\<lambda>s. quote \<notin> set s \<and> \<not> containsCI ''INSERT INTO transactions'' s) (recordTexts exampleStatement)"
    by code_simp
  then show "\<forall>s \<in> set (recordTexts exampleStatement). quote \<notin> set s \<and> \<not> containsCI ''INSERT INTO transactions'' s"
    unfolding list_all_iff .
  have "list_all (\<lambda>s. \<not> hasClose s) (metadataTexts exampleStatement)" by code_simp
  then show "\<forall>s \<in> set (metadataTexts exampleStatement). \<not> hasClose s" unfolding list_all_iff .
  have "list_all (\<lambda>tx. positional (amount tx)) (transactions exampleStatement)" by code_simp
  then show "\<forall>tx \<in> set (transactions exampleStatement). positional (amount tx)" unfolding list_all_iff .
  have "list_all (\<lambda>s. int (length s) \<le> 1000000)
          (stmtId 1800000000000 exampleStatement # recordTexts exampleStatement)"
    by code_simp
  then show "\<forall>s \<in> set (stmtId 1800000000000 exampleStatement # recordTexts exampleStatement). int (length s) \<le> 1000000"
    unfolding list_all_iff .
qed

lemma decode_example:
  "parseSQL 1000000 0 (generateSQL exampleTimestamp 1800000000000 1800000000000 exampleStatement) =
   Inr (decoded 0 1800000000000 1800000000000 exampleStatement)"
  by (rule decode_generateSQL [OF example_conditions(1) example_record_conditions(1)
        example_conditions(3) example_record_conditions(2,3) _ _ example_record_conditions(4)])
     simp_all


section \<open>Claims about the encoder\<close>

text \<open>
  C4. The claim says that the sixth column of the metadata tuple is the record's
  \<^verbatim>\<open>savedAt\<close> when it is present. The encoder never reads that field: for the example
  statement, saved at 1700000000000 and encoded at clock reading 1800000000000, the sixth
  value of the emitted metadata tuple is the clock reading, and so is the \<^verbatim>\<open>savedAt\<close> of the
  decoded record.
\<close>

theorem encode_samples_clock_despite_savedAt:
  "savedAt exampleStatement = Some (Fin 17 11) \<and>
   map_option (\<lambda>v. extractValues v ! 5)
     (stmtMatch (generateSQL exampleTimestamp 1800000000000 1800000000000 exampleStatement)) =
     Some (VNum (Fin 18 11)) \<and>
   map_sum id savedAt
     (parseSQL 1000000 0 (generateSQL exampleTimestamp 1800000000000 1800000000000 exampleStatement)) =
     Inr (Some (Fin 18 11))"
proof -
  let ?doc = "generateSQL exampleTimestamp 1800000000000 1800000000000 exampleStatement"
  have sm: "stmtMatch ?doc = Some (statementValues 1800000000000 1800000000000 exampleStatement)"
    by (rule stmtMatch_generateSQL [OF example_conditions(1) example_conditions(3) example_conditions(4)])
  have v: "extractValues (statementValues 1800000000000 1800000000000 exampleStatement) ! 5 =
           VNum (Fin 18 11)"
    by code_simp
  have s: "savedAt exampleStatement = Some (Fin 17 11)" by (simp add: exampleStatement_def)
  have o: "ofInt 1800000000000 = Fin 18 11" by code_simp
  from sm v s o show ?thesis
    by (simp add: decode_example)
qed

text \<open>
  C5, as stated: the text before the metadata insert statement is the same for any two
  records. It is not: the header comment carries the bank name of the record.
\<close>

theorem preamble_depends_on_bankName:
  "headerComment exampleTimestamp exampleStatement @ createTables \<noteq>
   headerComment exampleTimestamp (exampleStatement\<lparr>bankName := Some ''Bank B''\<rparr>) @ createTables"
  by (simp add: headerComment_def bankLabel_def exampleStatement_def)

text \<open>
  C5, amended: the output is the header comment, then the two table declarations, then the
  insert statements. The table declarations are one fixed text; the header comment depends
  on the time stamp and the bank name of the record and on nothing else.
\<close>

theorem table_declarations_static:
  "generateSQL timestamp idNow savedNow data =
     headerComment timestamp data @ createTables @
     insertStatement idNow savedNow data @ insertTransactions idNow data \<and>
   headerComment timestamp data = headerComment timestamp (other\<lparr>bankName := bankName data\<rparr>)"
  by (simp add: generateSQL_def headerComment_def bankLabel_def)



section \<open>Claims about the value extractor\<close>

text \<open>
  C6. The claim says that the numeric pattern matches an optional minus sign, digits and
  an optional fraction, and nothing else. The pattern of the source takes any run of minus
  signs and digits: the unquoted date \<^verbatim>\<open>2024-01-15\<close> is one token, and its value is
  \<^verbatim>\<open>NaN\<close>.
\<close>

theorem numeric_pattern_accepts_malformed_token:
  "matchNumber ''2024-01-15, 7'' = Some (''2024-01-15'', '', 7'') \<and>
   extractValues ''2024-01-15, 7'' = [VNum NaN, VNum (Fin 7 0)]"
  by code_simp

section \<open>Claims about the decoder\<close>

text \<open>
  C7, as stated: decoding fails exactly when the metadata statement is not found or fewer
  than six values are extracted from it. It fails in one more case: the matcher throws
  when its stack is exceeded, and the \<^verbatim>\<open>catch\<close> clause turns that into the same error. For
  every size \<open>n\<close> of the stack, the backup of the example statement with a file name of
  \<open>n + 1\<close> letters has a metadata statement that is found with six values, and decoding it
  fails.
\<close>

theorem long_fileName_rejected:
  "\<forall>n. stmtMatch (generateSQL exampleTimestamp 1800000000000 1800000000000 (longFileNameStatement n)) =
         Some (statementValues 1800000000000 1800000000000 (longFileNameStatement n)) \<and>
       length (extractValues (statementValues 1800000000000 1800000000000 (longFileNameStatement n))) = 6 \<and>
       parseSQL (int n) 0
         (generateSQL exampleTimestamp 1800000000000 1800000000000 (longFileNameStatement n)) =
       Inl CorruptOrWrongFormat"
proof
  fix n
  let ?data = "longFileNameStatement n"
  let ?doc = "generateSQL exampleTimestamp 1800000000000 1800000000000 ?data"
  let ?v = "statementValues 1800000000000 1800000000000 ?data"
  have b: "bankName ?data = bankName exampleStatement" by (simp add: longFileNameStatement_def)
  have m: "set (metadataTexts ?data) \<subseteq>
           insert (replicate (Suc n) (CHR ''a'')) (set (metadataTexts exampleStatement))"
    by (auto simp: longFileNameStatement_def metadataTexts_def present_def exampleStatement_def)
  have mc: "\<forall>s \<in> set (metadataTexts ?data). quote \<notin> set s \<and> \<not> hasClose s"
    using m example_conditions(4) replicate_texts(1,4) [of "Suc n"] by blast
  have sm: "stmtMatch ?doc = Some ?v"
    by (rule stmtMatch_generateSQL [OF example_conditions(1) _ mc])
       (unfold b, rule example_conditions(3))
  have pos: "positional (ofInt 1800000000000)" by (rule positional_ofInt) simp_all
  have len: "length (extractValues ?v) = 6"
    unfolding extractValues_statementValues [OF pos] by simp
  have "stackExceeded (int n) ?v"
    unfolding stackExceeded_statementValues
    by (simp add: longFileNameStatement_def present_def)
  with sm have "parseSQL (int n) 0 ?doc = Inl CorruptOrWrongFormat"
    by (simp add: parseSQL_def parseSQL_try_def)
  with sm len show "stmtMatch ?doc = Some ?v \<and> length (extractValues ?v) = 6 \<and>
      parseSQL (int n) 0 ?doc = Inl CorruptOrWrongFormat"
    by simp
qed

text \<open>
  C7, amended: decoding fails, with the one generic error, exactly when the metadata
  statement is not found, or the stack of the matcher is exceeded on the metadata tuple,
  or fewer than six values are extracted from it, or the stack is exceeded on a completed
  tuple; in every other case it returns a record. For a document that is not longer than
  the stack holds this is: exactly when the metadata statement is not found or has fewer
  than six values. A document that nowhere holds the words
  \<^verbatim>\<open>INSERT INTO statements\<close> is rejected.
\<close>

theorem decode_fails_iff_not_extracted:
  "(parseSQL limit now t = Inl CorruptOrWrongFormat) =
     (stmtMatch t = None \<or>
      (\<exists>v. stmtMatch t = Some v \<and>
           (stackExceeded limit v \<or> length (extractValues v) < 6 \<or>
            list_ex (stackExceeded limit) (completedTuples t)))) \<and>
   (\<exists>d. parseSQL limit now t = Inr d) =
     (\<exists>v. stmtMatch t = Some v \<and> \<not> stackExceeded limit v \<and> 6 \<le> length (extractValues v) \<and>
          \<not> list_ex (stackExceeded limit) (completedTuples t)) \<and>
   (int (length t) \<le> limit \<longrightarrow>
      (parseSQL limit now t = Inl CorruptOrWrongFormat) =
        (stmtMatch t = None \<or> (\<exists>v. stmtMatch t = Some v \<and> length (extractValues v) < 6))) \<and>
   (\<not> containsCI ''INSERT INTO statements'' t \<longrightarrow> parseSQL limit now t = Inl CorruptOrWrongFormat)"
proof -
  have a: "(parseSQL limit now t = Inl CorruptOrWrongFormat) =
     (stmtMatch t = None \<or>
      (\<exists>v. stmtMatch t = Some v \<and>
           (stackExceeded limit v \<or> length (extractValues v) < 6 \<or>
            list_ex (stackExceeded limit) (completedTuples t))))"
    by (auto simp: parseSQL_def parseSQL_try_def Let_def split: option.splits)
  have b: "(\<exists>d. parseSQL limit now t = Inr d) =
     (\<exists>v. stmtMatch t = Some v \<and> \<not> stackExceeded limit v \<and> 6 \<le> length (extractValues v) \<and>
          \<not> list_ex (stackExceeded limit) (completedTuples t))"
    by (auto simp: parseSQL_def parseSQL_try_def Let_def split: option.splits)
  have c: "(parseSQL limit now t = Inl CorruptOrWrongFormat) =
        (stmtMatch t = None \<or> (\<exists>v. stmtMatch t = Some v \<and> length (extractValues v) < 6))"
    if "int (length t) \<le> limit"
    unfolding a using stack_suffices [OF that] by auto
  have d: "parseSQL limit now t = Inl CorruptOrWrongFormat"
    if "\<not> containsCI ''INSERT INTO statements'' t"
    unfolding a using stmtMatch_None [OF that] by simp
  from a b c d show ?thesis by blast
qed

theorem decode_fails_iff_not_extracted_witness:
  "int (length plainDocument) \<le> 1000000 \<and>
   (parseSQL 1000000 0 plainDocument = Inl CorruptOrWrongFormat) =
     (stmtMatch plainDocument = None \<or>
      (\<exists>v. stmtMatch plainDocument = Some v \<and> length (extractValues v) < 6)) \<and>
   parseSQL 1000000 0 plainDocument \<noteq> Inl CorruptOrWrongFormat \<and>
   \<not> containsCI ''INSERT INTO statements'' ''SELECT 1;'' \<and>
   parseSQL 1000000 0 ''SELECT 1;'' = Inl CorruptOrWrongFormat"
proof -
  have h1: "int (length plainDocument) \<le> 1000000" by code_simp
  have h2: "\<not> containsCI ''INSERT INTO statements'' ''SELECT 1;''" by code_simp
  have h3: "parseSQL 1000000 0 plainDocument \<noteq> Inl CorruptOrWrongFormat" by code_simp
  from decode_fails_iff_not_extracted [of 1000000 0 plainDocument]
    decode_fails_iff_not_extracted [of 1000000 0 "''SELECT 1;''"] h1 h2 h3
  show ?thesis by blast
qed

text \<open>
  C3, as stated: two runs of the decoder on one text return the same record. They do not
  when the sixth metadata value is falsy, because \<^verbatim>\<open>savedAt\<close> is then read from the clock.
\<close>

theorem decode_reads_clock:
  "parseSQL 1000000 1 nullSavedAtDocument \<noteq> parseSQL 1000000 2 nullSavedAtDocument"
proof -
  have "map_sum id savedAt (parseSQL 1000000 1 nullSavedAtDocument) = Inr (Some (Fin 1 0))"
    by code_simp
  moreover have "map_sum id savedAt (parseSQL 1000000 2 nullSavedAtDocument) = Inr (Some (Fin 2 0))"
    by code_simp
  ultimately show ?thesis by auto
qed

text \<open>
  The same happens for a sixth value that is a numeral below the range of the floating
  point numbers, which is read as zero.
\<close>

lemma underflowing_savedAt_reads_clock:
  "map_sum id savedAt (parseSQL 1000000 1 tinySavedAtDocument) = Inr (Some (Fin 1 0))"
  "map_sum id savedAt (parseSQL 1000000 2 tinySavedAtDocument) = Inr (Some (Fin 2 0))"
  by code_simp+

text \<open>
  C3, amended: two runs on one text agree on success and failure and on every field
  except \<^verbatim>\<open>savedAt\<close>; they agree on \<^verbatim>\<open>savedAt\<close> too when the sixth metadata value is
  truthy; and when it is falsy, the \<^verbatim>\<open>savedAt\<close> of the record returned is the clock
  reading of the run.
\<close>

theorem decode_deterministic_up_to_savedAt:
  "map_sum id (savedAt_update (\<lambda>_. None)) (parseSQL limit n1 t) =
   map_sum id (savedAt_update (\<lambda>_. None)) (parseSQL limit n2 t) \<and>
   ((case stmtMatch t of
       None \<Rightarrow> True
     | Some v \<Rightarrow> length (extractValues v) < 6 \<or> truthy (extractValues v ! 5)) \<longrightarrow>
    parseSQL limit n1 t = parseSQL limit n2 t) \<and>
   (parseSQL limit n1 t = Inl CorruptOrWrongFormat \<longrightarrow> parseSQL limit n2 t = Inl CorruptOrWrongFormat) \<and>
   (\<forall>d. parseSQL limit n1 t = Inr d \<and>
        (case stmtMatch t of None \<Rightarrow> False | Some v \<Rightarrow> \<not> truthy (extractValues v ! 5)) \<longrightarrow>
        savedAt d = Some (ofInt n1))"
  by (auto simp: parseSQL_def parseSQL_try_def Let_def orElse_def split: option.splits if_splits)

theorem decode_deterministic_up_to_savedAt_witness:
  "(case stmtMatch plainDocument of
       None \<Rightarrow> True
     | Some v \<Rightarrow> length (extractValues v) < 6 \<or> truthy (extractValues v ! 5)) \<and>
   parseSQL 1000000 1 plainDocument = parseSQL 1000000 2 plainDocument \<and>
   parseSQL 1000000 1 ''SELECT 1;'' = Inl CorruptOrWrongFormat \<and>
   parseSQL 1000000 2 ''SELECT 1;'' = Inl CorruptOrWrongFormat \<and>
   parseSQL 1000000 1 nullSavedAtDocument = Inr (projr (parseSQL 1000000 1 nullSavedAtDocument)) \<and>
   (case stmtMatch nullSavedAtDocument of None \<Rightarrow> False | Some v \<Rightarrow> \<not> truthy (extractValues v ! 5)) \<and>
   savedAt (projr (parseSQL 1000000 1 nullSavedAtDocument)) = Some (ofInt 1)"
proof -
  have h1: "case stmtMatch plainDocument of
       None \<Rightarrow> True
     | Some v \<Rightarrow> length (extractValues v) < 6 \<or> truthy (extractValues v ! 5)"
    by code_simp
  have h2: "parseSQL 1000000 1 ''SELECT 1;'' = Inl CorruptOrWrongFormat" by code_simp
  have h3: "parseSQL 1000000 1 nullSavedAtDocument = Inr (projr (parseSQL 1000000 1 nullSavedAtDocument))"
    by code_simp
  have h4: "case stmtMatch nullSavedAtDocument of None \<Rightarrow> False | Some v \<Rightarrow> \<not> truthy (extractValues v ! 5)"
    by code_simp
  from decode_deterministic_up_to_savedAt [of 1000000 1 plainDocument 2]
    decode_deterministic_up_to_savedAt [of 1000000 1 "''SELECT 1;''" 2]
    decode_deterministic_up_to_savedAt [of 1000000 1 nullSavedAtDocument 2]
    h1 h2 h3 h4
  show ?thesis by blast
qed



section \<open>Claims about the round trip\<close>


text \<open>
  Two more inputs without quote characters: a file name that holds a closing parenthesis
  followed by a semicolon ends the metadata tuple early and the decoding fails; an amount
  that is written in exponent notation is read as two numbers and shifts the columns.
\<close>

lemma closing_fileName_fails:
  "parseSQL 1000000 0
     (generateSQL exampleTimestamp 1800000000000 1800000000000 closingFileNameStatement) =
   Inl CorruptOrWrongFormat"
proof -
  let ?rest = "insertStatement 1800000000000 1800000000000 closingFileNameStatement @
               insertTransactions 1800000000000 closingFileNameStatement"
  have b: "bankName closingFileNameStatement = bankName exampleStatement"
    by (simp add: closingFileNameStatement_def)
  have "noStart ''INSERT INTO statements''
          (headerComment exampleTimestamp closingFileNameStatement @ createTables)"
    by (rule noStart_header_statements [OF example_conditions(1)]) (unfold b, rule example_conditions(3))
  from noStart_stmtMatch [OF this, of ?rest]
  have "stmtMatch (generateSQL exampleTimestamp 1800000000000 1800000000000 closingFileNameStatement) =
        stmtMatch ?rest"
    by (simp add: generateSQL_def)
  moreover have "map_option (\<lambda>v. length (extractValues v)) (stmtMatch ?rest) = Some 1"
    by code_simp
  ultimately show ?thesis
    by (auto simp: parseSQL_def parseSQL_try_def Let_def split: option.splits)
qed

lemma exponent_amount_shifts_columns:
  "scanAll (insertTransactions 1800000000000 smallAmountStatement) =
   [\<lparr> date = ''01/01/2024'', amount = Fin 1 0, description = ''-7'',
      transaction_code = ''ATM fee'', partner_name = ''FT24001'', partner_account = ''ATM 0042'',
      type = DEBIT, category = Some ''DEBIT'' \<rparr>]"
  by code_simp



section \<open>Claims about strings that look like statements\<close>

text \<open>
  C2. The claim says that nothing inside a quoted string is taken as a tuple or block
  delimiter and that a description holding \<^verbatim>\<open>; DROP\<close> decodes without phantom tuples. The
  search for the next marker resumes right after the previous marker and looks into the
  strings: for a description that holds the words of a transaction insert statement and
  a tuple of nine values, a second scan starts inside the string and adds a row.
\<close>

theorem quoted_marker_yields_phantom_row:
  "map_sum id transactions
     (parseSQL 1000000 0 (generateSQL exampleTimestamp 1800000000000 1800000000000 injectedStatement)) =
   Inr (transactions injectedStatement @ [phantomRow])"
proof -
  let ?doc = "generateSQL exampleTimestamp 1800000000000 1800000000000 injectedStatement"
  let ?v = "statementValues 1800000000000 1800000000000 injectedStatement"
  note m = same_metadata [OF injected_metadata(1,2) injected_same(1-4)]
  have "\<not> list_ex (stackExceeded 1000000) (completedTuples (insertTransactions 1800000000000 injectedStatement))"
    by code_simp
  then have nt: "\<not> list_ex (stackExceeded 1000000) (completedTuples ?doc)"
    unfolding completedTuples_cong [OF m(3)] .
  have "scanAll (insertTransactions 1800000000000 injectedStatement) =
        transactions injectedStatement @ [phantomRow]"
    by code_simp
  then have sc: "scanAll ?doc = transactions injectedStatement @ [phantomRow]"
    unfolding scanAll_cong [OF m(3)] .
  show ?thesis
    unfolding parseSQL_parts [OF m(1) m(2) length_extractValues_statementValues nt]
    by (simp add: sc)
qed

text \<open>
  Two encoded documents written one after the other decode to the rows of the first
  followed by the rows of the second, when no text field holds a quote character or the
  words of the marker.
\<close>

lemma scanAll_concatenated_documents:
  assumes "isoTimestamp ts1" and "isoTimestamp ts2"
    and "\<forall>s \<in> set (recordTexts d1 @ recordTexts d2).
           quote \<notin> set s \<and> \<not> containsCI ''INSERT INTO transactions'' s"
    and "\<forall>tx \<in> set (transactions d1 @ transactions d2). positional (amount tx) \<and> category tx \<noteq> None"
  shows "scanAll (generateSQL ts1 i1 s1 d1 @ generateSQL ts2 i2 s2 d2) =
         transactions d1 @ transactions d2"
proof -
  from assms(3) have t1: "\<forall>s \<in> set (recordTexts d1).
      quote \<notin> set s \<and> \<not> containsCI ''INSERT INTO transactions'' s"
    and t2: "\<forall>s \<in> set (recordTexts d2).
      quote \<notin> set s \<and> \<not> containsCI ''INSERT INTO transactions'' s"
    by auto
  from assms(4) have r1: "\<forall>tx \<in> set (transactions d1). positional (amount tx) \<and> category tx \<noteq> None"
    and r2: "\<forall>tx \<in> set (transactions d2). positional (amount tx) \<and> category tx \<noteq> None"
    by auto
  show ?thesis
    unfolding scanAll_generateSQL_append [OF assms(1) t1] scanAll_generateSQL [OF assms(2) t2]
    by (simp only: toTransaction_rows [OF r1] toTransaction_rows [OF r2])
qed

text \<open>
  C9. The claim says that the decoded rows are in the order in which their tuples stand
  in the text. With two transactions of which the first has a description that holds the
  words of a transaction insert statement and a tuple of nine values, the row read from
  inside the first tuple comes after the row of the second tuple.
\<close>

theorem nested_marker_breaks_order:
  "map_sum id (map date \<circ> transactions)
     (parseSQL 1000000 0 (generateSQL exampleTimestamp 1800000000000 1800000000000 nestedStatement)) =
   Inr [''01/01/2024'', ''02/01/2024'', ''2'']"
proof -
  let ?doc = "generateSQL exampleTimestamp 1800000000000 1800000000000 nestedStatement"
  note m = same_metadata [OF injected_metadata(3,4) injected_same(5-8)]
  have "\<not> list_ex (stackExceeded 1000000) (completedTuples (insertTransactions 1800000000000 nestedStatement))"
    by code_simp
  then have nt: "\<not> list_ex (stackExceeded 1000000) (completedTuples ?doc)"
    unfolding completedTuples_cong [OF m(3)] .
  have "map date (scanAll (insertTransactions 1800000000000 nestedStatement)) =
      [''01/01/2024'', ''02/01/2024'', ''2'']"
    by code_simp
  then have sc: "map date (scanAll ?doc) = [''01/01/2024'', ''02/01/2024'', ''2'']"
    unfolding scanAll_cong [OF m(3)] .
  show ?thesis
    unfolding parseSQL_parts [OF m(1) m(2) length_extractValues_statementValues nt]
    by (simp add: sc)
qed

end
